theory Spec2Isabelle
  imports Main "HOL-Library.Word"
begin

section \<open>Data model of the plugin loader (plugin\_loader.c)\<close>

text \<open>
  The kind tag of a feature descriptor. The enumeration is declared in plugin\_feature.h,
  which is not part of the sources; the five tags are the ones the loader
  switches on and the specification lists.
\<close>

datatype feature_kind =
    FEATURE_PROVIDE
  | FEATURE_DEPENDS
  | FEATURE_SDEPEND
  | FEATURE_REGISTER
  | FEATURE_CALLBACK

text \<open>
  A feature descriptor: the kind tag and the payload (capability type with its argument),
  which the loader never inspects itself.
\<close>

record 'a plugin_feature_t =
  kind :: feature_kind
  arg :: 'a

text \<open>
  A pointer into a descriptor array owned by a plugin. The arrays are never written
  after construction, so the pointer carries what it points to: \<open>target\<close> is the cell
  \<open>ptr[0]\<close>, \<open>rest\<close> the cells \<open>ptr[1]\<close>, \<open>ptr[2]\<close>, ... up to the end of the array.
  \<open>block\<close> and \<open>off\<close> are the address; two pointers are the same pointer when their
  addresses agree.
\<close>

record 'a feature_ptr =
  block :: nat
  off :: nat
  target :: "'a plugin_feature_t"
  rest :: "'a plugin_feature_t list"

definition ptr_eq :: "'a feature_ptr \<Rightarrow> 'a feature_ptr \<Rightarrow> bool" where
  "ptr_eq a b = (block a = block b \<and> off a = off b)"

text \<open>
  A plugin object (\<open>plugin_t\<close>): \<open>get_features = None\<close> is a NULL method pointer (the
  feature interface is not supported); otherwise the method returns the address of the
  descriptor array and its cells.
\<close>

record 'a plugin_t =
  get_name :: string
  get_features :: "(nat \<times> 'a plugin_feature_t list) option"

record 'a plugin_entry_t =
  plugin :: "'a plugin_t"
  critical :: bool
  handle :: "nat option"
  entry_features :: "nat list"

text \<open>
  \<open>provided_feature_t\<close>. The C struct holds the pointer \<open>feature\<close> and the count
  \<open>dependencies\<close> of cells from the PROVIDE cell to the end of the array; here the
  pointer carries exactly these cells, and the count is derived from them.
\<close>

record 'a provided_feature_t =
  entry :: nat
  reg :: "'a feature_ptr option"
  feature :: "'a feature_ptr"
  loading :: bool
  loaded :: bool
  failed :: bool

definition dependencies :: "'a provided_feature_t \<Rightarrow> nat" where
  "dependencies p = Suc (length (rest (feature p)))"

record 'a registered_feature_t =
  reg_feature :: "'a feature_ptr"
  reg_plugins :: "nat list"

text \<open>
  \<open>private_plugin_loader_t\<close>. Plugin entries and provided features are heap objects
  that several lists point to, so the lists hold addresses and the two heaps map an
  address to the object; \<open>heap_top\<close> is the next address \<open>malloc\<close> hands out (freed
  addresses are not reused). The hash table \<open>features\<close> is the list of its
  registered features in scan order; a registered feature is referred to by its
  position. The counters of \<open>stats\<close> are C \<open>int\<close>s, words of 32 bits that are read as
  signed numbers: an increment of \<open>INT_MAX\<close> wraps around to \<open>INT_MIN\<close>, and the test
  \<open>stats.critical > 0\<close> is the signed comparison.
\<close>

record 'a private_plugin_loader_t =
  plugins :: "nat list"
  features :: "'a registered_feature_t list"
  loaded_list :: "nat list"
  paths :: "string option list option"
  loaded_plugins_str :: "string option"
  stats_failed :: "32 word"
  stats_depends :: "32 word"
  stats_critical :: "32 word"
  entry_heap :: "nat \<Rightarrow> 'a plugin_entry_t"
  provided_heap :: "nat \<Rightarrow> 'a provided_feature_t"
  heap_top :: nat

text \<open>
  The collaborators of the loader that live outside plugin\_loader.c:
  \<open>plugin_feature_matches\<close>, \<open>plugin_feature_equals\<close> and \<open>plugin_feature_load\<close>
  of plugin\_feature.c, the dynamic linker (\<open>dlsym\<close> on \<open>RTLD_DEFAULT\<close>, written
  \<open>None\<close>, or on a handle; a constructor is modelled by the plugin object it returns,
  \<open>None\<close> for NULL), \<open>dlopen\<close>, \<open>stat\<close>, the integrity checker
  (\<open>lib->integrity\<close>, absent or a pair of checks), \<open>lib->leak_detective\<close>, and the
  macros \<open>PLUGINDIR\<close> and \<open>PATH_MAX\<close>.
\<close>

record 'a integrity_checker_t =
  check_file :: "string \<Rightarrow> string \<Rightarrow> bool"
  check_segment :: "string \<Rightarrow> 'a plugin_t option \<Rightarrow> bool"

record 'a env =
  plugin_feature_matches :: "'a plugin_feature_t \<Rightarrow> 'a plugin_feature_t \<Rightarrow> bool"
  plugin_feature_equals :: "'a plugin_feature_t \<Rightarrow> 'a plugin_feature_t \<Rightarrow> bool"
  plugin_feature_load :: "'a plugin_t \<Rightarrow> 'a feature_ptr \<Rightarrow> 'a feature_ptr option \<Rightarrow> bool"
  dlsym :: "nat option \<Rightarrow> string \<Rightarrow> 'a plugin_t option option"
  dlopen :: "string \<Rightarrow> nat option"
  stat :: "string \<Rightarrow> bool"
  integrity :: "'a integrity_checker_t option"
  leak_detective :: bool
  plugindir :: "string option"
  path_max :: nat

section \<open>Collections\<close>

text \<open>
  Modelled from the spec: the hash table of collections/hashtable.c is not part of the
  sources. \<open>get\<close> returns the registered feature whose key equals the lookup key,
  \<open>get_match\<close> scans for a registered feature accepted by the given predicate,
  \<open>put\<close> inserts, \<open>remove\<close> deletes the entry \<open>get\<close> would return. The callback
  receives the lookup key first and the stored key second.
\<close>

fun find_index_opt :: "('b \<Rightarrow> bool) \<Rightarrow> 'b list \<Rightarrow> nat option" where
  "find_index_opt P [] = None"
| "find_index_opt P (x # xs) =
     (if P x then Some 0
      else (case find_index_opt P xs of None \<Rightarrow> None | Some i \<Rightarrow> Some (Suc i)))"

definition registered_feature_equals ::
  "'a env \<Rightarrow> 'a feature_ptr \<Rightarrow> 'a registered_feature_t \<Rightarrow> bool" where
  "registered_feature_equals env a b =
     plugin_feature_equals env (target a) (target (reg_feature b))"

definition ht_get ::
  "'a env \<Rightarrow> 'a registered_feature_t list \<Rightarrow> 'a feature_ptr \<Rightarrow> nat option" where
  "ht_get env tbl lookup = find_index_opt (registered_feature_equals env lookup) tbl"

definition ht_get_match ::
  "'a registered_feature_t list \<Rightarrow> ('a registered_feature_t \<Rightarrow> bool) \<Rightarrow>
   'a registered_feature_t option" where
  "ht_get_match tbl match = find match tbl"

definition ht_put ::
  "'a registered_feature_t list \<Rightarrow> 'a registered_feature_t \<Rightarrow>
   'a registered_feature_t list" where
  \<comment> \<open>only called after \<open>get\<close> found no equal key; the new entry is scanned last\<close>
  "ht_put tbl r = tbl @ [r]"

fun remove_nth :: "nat \<Rightarrow> 'b list \<Rightarrow> 'b list" where
  "remove_nth i [] = []"
| "remove_nth 0 (x # xs) = xs"
| "remove_nth (Suc i) (x # xs) = x # remove_nth i xs"

definition ht_remove ::
  "'a env \<Rightarrow> 'a registered_feature_t list \<Rightarrow> 'a feature_ptr \<Rightarrow>
   'a registered_feature_t list" where
  "ht_remove env tbl lookup =
     (case ht_get env tbl lookup of None \<Rightarrow> tbl | Some i \<Rightarrow> remove_nth i tbl)"

text \<open>\<open>malloc\<close>: a fresh address.\<close>

definition alloc :: "'a private_plugin_loader_t \<Rightarrow> nat \<times> 'a private_plugin_loader_t" where
  "alloc s = (heap_top s, s\<lparr>heap_top := Suc (heap_top s)\<rparr>)"

section \<open>Dependency resolver\<close>

definition is_feature_loaded :: "'a private_plugin_loader_t \<Rightarrow> nat \<Rightarrow> bool" where
  "is_feature_loaded s item = loaded (provided_heap s item)"

definition is_feature_loadable :: "'a private_plugin_loader_t \<Rightarrow> nat \<Rightarrow> bool" where
  "is_feature_loadable s item =
     (\<not> loading (provided_heap s item) \<and> \<not> loaded (provided_heap s item) \<and>
      \<not> failed (provided_heap s item))"

definition loaded_feature_matches ::
  "'a env \<Rightarrow> 'a private_plugin_loader_t \<Rightarrow> 'a plugin_feature_t \<Rightarrow>
   'a registered_feature_t \<Rightarrow> bool" where
  "loaded_feature_matches env s a b =
     (if plugin_feature_matches env a (target (reg_feature b))
      then list_ex (is_feature_loaded s) (reg_plugins b)
      else False)"

definition loadable_feature_equals ::
  "'a env \<Rightarrow> 'a private_plugin_loader_t \<Rightarrow> 'a plugin_feature_t \<Rightarrow>
   'a registered_feature_t \<Rightarrow> bool" where
  "loadable_feature_equals env s a b =
     (if plugin_feature_equals env a (target (reg_feature b))
      then list_ex (is_feature_loadable s) (reg_plugins b)
      else False)"

definition loadable_feature_matches ::
  "'a env \<Rightarrow> 'a private_plugin_loader_t \<Rightarrow> 'a plugin_feature_t \<Rightarrow>
   'a registered_feature_t \<Rightarrow> bool" where
  "loadable_feature_matches env s a b =
     (if plugin_feature_matches env a (target (reg_feature b))
      then list_ex (is_feature_loadable s) (reg_plugins b)
      else False)"

definition find_compatible_feature ::
  "'a env \<Rightarrow> 'a private_plugin_loader_t \<Rightarrow> 'a plugin_feature_t \<Rightarrow> bool" where
  "find_compatible_feature env s dependency =
     (ht_get_match (features s) (loaded_feature_matches env s dependency) \<noteq> None)"

definition set_loading ::
  "nat \<Rightarrow> bool \<Rightarrow> 'a private_plugin_loader_t \<Rightarrow> 'a private_plugin_loader_t" where
  "set_loading p b s =
     s\<lparr>provided_heap := (provided_heap s)(p := (provided_heap s p)\<lparr>loading := b\<rparr>)\<rparr>"

definition set_loaded ::
  "nat \<Rightarrow> 'a private_plugin_loader_t \<Rightarrow> 'a private_plugin_loader_t" where
  "set_loaded p s =
     s\<lparr>provided_heap := (provided_heap s)(p := (provided_heap s p)\<lparr>loaded := True\<rparr>)\<rparr>"

definition set_failed ::
  "nat \<Rightarrow> 'a private_plugin_loader_t \<Rightarrow> 'a private_plugin_loader_t" where
  "set_failed p s =
     s\<lparr>provided_heap := (provided_heap s)(p := (provided_heap s p)\<lparr>failed := True\<rparr>)\<rparr>"

text \<open>
  The search of the \<open>do ... while\<close> loop of \<open>load_dependencies\<close>: the exact match is
  preferred, the fuzzy match is the fallback.
\<close>

definition find_loadable ::
  "'a env \<Rightarrow> 'a private_plugin_loader_t \<Rightarrow> 'a plugin_feature_t \<Rightarrow>
   'a registered_feature_t option" where
  "find_loadable env s lookup =
     (case ht_get_match (features s) (loadable_feature_equals env s lookup) of
        Some registered \<Rightarrow> Some registered
      | None \<Rightarrow> ht_get_match (features s) (loadable_feature_matches env s lookup))"

text \<open>
  \<open>load_provided\<close>, \<open>load_feature\<close>, \<open>load_dependencies\<close> and \<open>load_registered\<close>
  call each other; \<open>load_matching\<close> is the \<open>do ... while\<close> loop inside
  \<open>load_dependencies\<close>. The first argument after the environment is fuel: every call
  uses one unit, and \<open>None\<close> means that the fuel did not suffice. The \<open>level\<close>
  argument of the C functions only indents log messages and is left out, as are the
  log messages. \<open>load_dependencies\<close> receives the cells \<open>feature[i]\<close>,
  \<open>feature[i + 1]\<close>, ... that its \<open>for\<close> loop still has to visit, and
  \<open>load_registered\<close> the providers its enumerator still has to visit.
\<close>

fun load_provided ::
    "'a env \<Rightarrow> nat \<Rightarrow> nat \<Rightarrow> 'a private_plugin_loader_t \<Rightarrow>
     'a private_plugin_loader_t option"
  and load_feature ::
    "'a env \<Rightarrow> nat \<Rightarrow> nat \<Rightarrow> 'a private_plugin_loader_t \<Rightarrow>
     'a private_plugin_loader_t option"
  and load_dependencies ::
    "'a env \<Rightarrow> nat \<Rightarrow> 'a plugin_feature_t list \<Rightarrow> 'a private_plugin_loader_t \<Rightarrow>
     (bool \<times> 'a private_plugin_loader_t) option"
  and load_matching ::
    "'a env \<Rightarrow> nat \<Rightarrow> 'a plugin_feature_t \<Rightarrow> 'a private_plugin_loader_t \<Rightarrow>
     'a private_plugin_loader_t option"
  and load_registered ::
    "'a env \<Rightarrow> nat \<Rightarrow> nat list \<Rightarrow> 'a private_plugin_loader_t \<Rightarrow>
     'a private_plugin_loader_t option"
where
  "load_provided env 0 provided s = None"
| "load_provided env (Suc n) provided s =
     (if loaded (provided_heap s provided) \<or> failed (provided_heap s provided) then Some s
      else if loading (provided_heap s provided) then Some s
      else (case load_feature env n provided (set_loading provided True s) of
              None \<Rightarrow> None
            | Some s1 \<Rightarrow> Some (set_loading provided False s1)))"
| "load_feature env 0 provided s = None"
| "load_feature env (Suc n) provided s =
     (case load_dependencies env n (rest (feature (provided_heap s provided))) s of
        None \<Rightarrow> None
      | Some (ok, s1) \<Rightarrow>
          (let p = provided_heap s1 provided;
               e = entry_heap s1 (entry p)
           in if ok then
                if plugin_feature_load env (plugin e) (feature p) (reg p)
                then Some ((set_loaded provided s1)
                             \<lparr>loaded_list := provided # loaded_list s1\<rparr>)
                else Some ((set_failed provided s1)
                             \<lparr>stats_critical :=
                                stats_critical s1 + (if critical e then 1 else 0),
                              stats_failed := stats_failed s1 + 1\<rparr>)
              else Some ((set_failed provided s1)
                           \<lparr>stats_depends := stats_depends s1 + 1,
                            stats_critical :=
                              stats_critical s1 + (if critical e then 1 else 0),
                            stats_failed := stats_failed s1 + 1\<rparr>)))"
| "load_dependencies env 0 deps s = None"
| "load_dependencies env (Suc n) [] s = Some (True, s)"
| "load_dependencies env (Suc n) (d # deps) s =
     (if kind d \<noteq> FEATURE_DEPENDS \<and> kind d \<noteq> FEATURE_SDEPEND then Some (True, s)
      else (case load_matching env n d s of
              None \<Rightarrow> None
            | Some s1 \<Rightarrow>
                if \<not> find_compatible_feature env s1 d then
                  if kind d = FEATURE_SDEPEND then load_dependencies env n deps s1
                  else Some (False, s1)
                else load_dependencies env n deps s1))"
| "load_matching env 0 lookup s = None"
| "load_matching env (Suc n) lookup s =
     (case find_loadable env s lookup of
        None \<Rightarrow> Some s
      | Some registered \<Rightarrow>
          (case load_registered env n (reg_plugins registered) s of
             None \<Rightarrow> None
           | Some s1 \<Rightarrow> load_matching env n lookup s1))"
| "load_registered env 0 ps s = None"
| "load_registered env (Suc n) [] s = Some s"
| "load_registered env (Suc n) (provided # ps) s =
     (case load_provided env n provided s of
        None \<Rightarrow> None
      | Some s1 \<Rightarrow> load_registered env n ps s1)"

text \<open>
  \<open>load_features\<close>: the plugins in list order, the features of each plugin in the
  order of its list.
\<close>

fun load_features_inner ::
  "'a env \<Rightarrow> nat \<Rightarrow> nat list \<Rightarrow> 'a private_plugin_loader_t \<Rightarrow>
   'a private_plugin_loader_t option" where
  "load_features_inner env n [] s = Some s"
| "load_features_inner env n (provided # ps) s =
     (case load_provided env n provided s of
        None \<Rightarrow> None
      | Some s1 \<Rightarrow> load_features_inner env n ps s1)"

fun load_features_outer ::
  "'a env \<Rightarrow> nat \<Rightarrow> nat list \<Rightarrow> 'a private_plugin_loader_t \<Rightarrow>
   'a private_plugin_loader_t option" where
  "load_features_outer env n [] s = Some s"
| "load_features_outer env n (e # es) s =
     (case load_features_inner env n (entry_features (entry_heap s e)) s of
        None \<Rightarrow> None
      | Some s1 \<Rightarrow> load_features_outer env n es s1)"

definition load_features ::
  "'a env \<Rightarrow> nat \<Rightarrow> 'a private_plugin_loader_t \<Rightarrow> 'a private_plugin_loader_t option" where
  "load_features env n s = load_features_outer env n (plugins s) s"

section \<open>Registry\<close>

text \<open>
  The \<open>FEATURE_PROVIDE\<close> case of \<open>register_features\<close>: find or create the registered
  feature, allocate the provided feature and append it to the registered feature's
  list and to the entry's list.
\<close>

definition register_provide ::
  "'a env \<Rightarrow> nat \<Rightarrow> 'a feature_ptr \<Rightarrow> 'a feature_ptr option \<Rightarrow>
   'a private_plugin_loader_t \<Rightarrow> 'a private_plugin_loader_t" where
  "register_provide env e fp rg s =
     (let (i, tbl) =
            (case ht_get env (features s) fp of
               None \<Rightarrow> (length (features s),
                         ht_put (features s) \<lparr>reg_feature = fp, reg_plugins = []\<rparr>)
             | Some i \<Rightarrow> (i, features s));
          (provided, s1) = alloc s;
          registered = tbl ! i
      in s1\<lparr>provided_heap := (provided_heap s1)
                (provided := \<lparr>entry = e, reg = rg, feature = fp,
                              loading = False, loaded = False, failed = False\<rparr>),
            features := tbl[i := registered\<lparr>reg_plugins := reg_plugins registered @ [provided]\<rparr>],
            entry_heap := (entry_heap s1)
                (e := (entry_heap s1 e)
                   \<lparr>entry_features := entry_features (entry_heap s1 e) @ [provided]\<rparr>)\<rparr>)"

text \<open>
  The \<open>for\<close> loop of \<open>register_features\<close> over the cells of the array at address
  \<open>b\<close>; \<open>i\<close> is the index of the current cell, \<open>rg\<close> the current registration
  context.
\<close>

fun register_cells ::
  "'a env \<Rightarrow> nat \<Rightarrow> nat \<Rightarrow> nat \<Rightarrow> 'a feature_ptr option \<Rightarrow> 'a plugin_feature_t list \<Rightarrow>
   'a private_plugin_loader_t \<Rightarrow> 'a private_plugin_loader_t" where
  "register_cells env e b i rg [] s = s"
| "register_cells env e b i rg (f # fs) s =
     (case kind f of
        FEATURE_PROVIDE \<Rightarrow>
          register_cells env e b (Suc i) rg fs
            (register_provide env e \<lparr>block = b, off = i, target = f, rest = fs\<rparr> rg s)
      | FEATURE_REGISTER \<Rightarrow>
          register_cells env e b (Suc i)
            (Some \<lparr>block = b, off = i, target = f, rest = fs\<rparr>) fs s
      | FEATURE_CALLBACK \<Rightarrow>
          register_cells env e b (Suc i)
            (Some \<lparr>block = b, off = i, target = f, rest = fs\<rparr>) fs s
      | _ \<Rightarrow> register_cells env e b (Suc i) rg fs s)"

definition register_features ::
  "'a env \<Rightarrow> nat \<Rightarrow> 'a private_plugin_loader_t \<Rightarrow> 'a private_plugin_loader_t" where
  "register_features env e s =
     (case get_features (plugin (entry_heap s e)) of
        None \<Rightarrow> s
      | Some (b, cells) \<Rightarrow> register_cells env e b 0 None cells s)"

text \<open>
  \<open>unregister_feature\<close>. \<open>linked_list_t.remove\<close> removes every occurrence of the
  item; \<open>free\<close> has no effect on the model.
\<close>

definition unregister_feature ::
  "'a env \<Rightarrow> nat \<Rightarrow> 'a private_plugin_loader_t \<Rightarrow> 'a private_plugin_loader_t" where
  "unregister_feature env provided s =
     (let lookup = feature (provided_heap s provided) in
      case ht_get env (features s) lookup of
        None \<Rightarrow> s
      | Some i \<Rightarrow>
          (let registered = features s ! i;
               remaining = removeAll provided (reg_plugins registered)
           in if remaining = [] then
                s\<lparr>features := ht_remove env (features s) lookup\<rparr>
              else if ptr_eq (reg_feature registered) lookup then
                s\<lparr>features := (features s)
                     [i := \<lparr>reg_feature = feature (provided_heap s (hd remaining)),
                            reg_plugins = remaining\<rparr>]\<rparr>
              else
                s\<lparr>features := (features s)
                     [i := registered\<lparr>reg_plugins := remaining\<rparr>]\<rparr>))"

fun unregister_list ::
  "'a env \<Rightarrow> nat list \<Rightarrow> 'a private_plugin_loader_t \<Rightarrow> 'a private_plugin_loader_t" where
  "unregister_list env [] s = s"
| "unregister_list env (provided # ps) s =
     unregister_list env ps (unregister_feature env provided s)"

text \<open>
  \<open>unregister_features\<close> empties the entry's list while it unregisters each
  element; \<open>unregister_feature\<close> does not read that list.
\<close>

definition unregister_features ::
  "'a env \<Rightarrow> nat \<Rightarrow> 'a private_plugin_loader_t \<Rightarrow> 'a private_plugin_loader_t" where
  "unregister_features env e s =
     unregister_list env (entry_features (entry_heap s e))
       (s\<lparr>entry_heap := (entry_heap s)(e := (entry_heap s e)\<lparr>entry_features := []\<rparr>)\<rparr>)"

text \<open>
  \<open>purge_plugins\<close>: the enumeration of the plugin list, which yields the entries to
  keep and the state after unregistering the others. \<open>plugin_entry_destroy\<close> releases
  the plugin object, the library handle and the entry, none of which the model reads
  afterwards.
\<close>

fun purge_entries ::
  "'a env \<Rightarrow> nat list \<Rightarrow> 'a private_plugin_loader_t \<Rightarrow>
   nat list \<times> 'a private_plugin_loader_t" where
  "purge_entries env [] s = ([], s)"
| "purge_entries env (e # es) s =
     (if get_features (plugin (entry_heap s e)) = None then
        (let (kept, s1) = purge_entries env es s in (e # kept, s1))
      else if \<not> list_ex (is_feature_loaded s) (entry_features (entry_heap s e)) then
        purge_entries env es (unregister_features env e s)
      else
        (let (kept, s1) = purge_entries env es s in (e # kept, s1)))"

definition purge_plugins ::
  "'a env \<Rightarrow> 'a private_plugin_loader_t \<Rightarrow> 'a private_plugin_loader_t" where
  "purge_plugins env s =
     (let (kept, s1) = purge_entries env (plugins s) s in s1\<lparr>plugins := kept\<rparr>)"

section \<open>Module sources\<close>

datatype status_t = FAILED | NOT_FOUND

definition translate :: "string \<Rightarrow> string" where
  \<comment> \<open>\<open>translate(create, "-", "_")\<close>\<close>
  "translate str = map (\<lambda>c. if c = CHR ''-'' then CHR ''_'' else c) str"

text \<open>
  \<open>create_plugin\<close>: \<open>Inl\<close> is the failure status, \<open>Inr\<close> the address of the new
  entry (status \<open>SUCCESS\<close>) with the state that holds it.
\<close>

definition create_plugin ::
  "'a env \<Rightarrow> nat option \<Rightarrow> string \<Rightarrow> bool \<Rightarrow> bool \<Rightarrow> 'a private_plugin_loader_t \<Rightarrow>
   status_t + nat \<times> 'a private_plugin_loader_t" where
  "create_plugin env hdl name integ crit s =
     (if length (name @ ''_plugin_create'') \<ge> 128 then Inl FAILED
      else (case dlsym env hdl (translate (name @ ''_plugin_create'')) of
              None \<Rightarrow> Inl NOT_FOUND
            | Some constructor \<Rightarrow>
                if integ \<and> (case integrity env of
                               None \<Rightarrow> False
                             | Some ic \<Rightarrow> \<not> check_segment ic name constructor)
                then Inl FAILED
                else (case constructor of
                        None \<Rightarrow> Inl FAILED
                      | Some plg \<Rightarrow>
                          (let (e, s1) = alloc s
                           in Inr (e, s1\<lparr>entry_heap := (entry_heap s1)
                                       (e := \<lparr>plugin = plg, critical = crit, handle = None,
                                               entry_features = []\<rparr>)\<rparr>)))))"

definition load_plugin ::
  "'a env \<Rightarrow> string \<Rightarrow> string option \<Rightarrow> bool \<Rightarrow> 'a private_plugin_loader_t \<Rightarrow>
   nat option \<times> 'a private_plugin_loader_t" where
  "load_plugin env name file crit s =
     (case create_plugin env None name False crit s of
        Inr (e, s1) \<Rightarrow> (Some e, s1\<lparr>plugins := plugins s1 @ [e]\<rparr>)
      | Inl FAILED \<Rightarrow> (None, s)
      | Inl NOT_FOUND \<Rightarrow>
          (case file of
             None \<Rightarrow> (None, s)
           | Some f \<Rightarrow>
               if (case integrity env of
                     None \<Rightarrow> False
                   | Some ic \<Rightarrow> \<not> check_file ic name f)
               then (None, s)
               else (case dlopen env f of
                       None \<Rightarrow> (None, s)
                     | Some h \<Rightarrow>
                         (case create_plugin env (Some h) name True crit s of
                            Inl st \<Rightarrow> (None, s)
                          | Inr (e, s1) \<Rightarrow>
                              (Some e,
                               s1\<lparr>entry_heap := (entry_heap s1)
                                     (e := (entry_heap s1 e)\<lparr>handle := Some h\<rparr>),
                                   plugins := plugins s1 @ [e]\<rparr>)))))"

definition find_plugin :: "'a env \<Rightarrow> string option \<Rightarrow> string \<Rightarrow> string option" where
  "find_plugin env path name =
     (case path of
        None \<Rightarrow> None
      | Some p \<Rightarrow>
          (let buf = p @ ''/libstrongswan-'' @ name @ ''.so''
           in if length buf < path_max env \<and> stat env buf then Some buf else None))"

fun find_in_paths :: "'a env \<Rightarrow> string option list \<Rightarrow> string \<Rightarrow> string option" where
  "find_in_paths env [] name = None"
| "find_in_paths env (p # ps) name =
     (case find_plugin env p name of
        Some file \<Rightarrow> Some file
      | None \<Rightarrow> find_in_paths env ps name)"

section \<open>Lifecycle controller\<close>

definition plugin_loader_create :: "'a private_plugin_loader_t" where
  "plugin_loader_create =
     \<lparr>plugins = [], features = [], loaded_list = [], paths = None,
      loaded_plugins_str = None, stats_failed = 0, stats_depends = 0, stats_critical = 0,
      entry_heap = (\<lambda>_. \<lparr>plugin = \<lparr>get_name = [], get_features = None\<rparr>, critical = False,
                           handle = None, entry_features = []\<rparr>),
      provided_heap = (\<lambda>_. \<lparr>entry = 0, reg = None,
                              feature = \<lparr>block = 0, off = 0,
                                         target = \<lparr>kind = FEATURE_PROVIDE, arg = undefined\<rparr>,
                                         rest = []\<rparr>,
                              loading = False, loaded = False, failed = False\<rparr>),
      heap_top = 0\<rparr>"

text \<open>
  \<open>add_static_features\<close>. \<open>static_features_create\<close> copies the descriptors into
  a freshly allocated array, whose address becomes the address of the plugin's array.
\<close>

definition static_features_create ::
  "string \<Rightarrow> 'a plugin_feature_t list \<Rightarrow> 'a private_plugin_loader_t \<Rightarrow>
   'a plugin_t \<times> 'a private_plugin_loader_t" where
  "static_features_create name feats s =
     (let (a, s1) = alloc s
      in (\<lparr>get_name = name, get_features = Some (a, feats)\<rparr>, s1))"

definition add_static_features ::
  "'a env \<Rightarrow> string \<Rightarrow> 'a plugin_feature_t list \<Rightarrow> bool \<Rightarrow>
   'a private_plugin_loader_t \<Rightarrow> 'a private_plugin_loader_t" where
  "add_static_features env name feats crit s =
     (let (plg, s1) = static_features_create name feats s;
          (e, s2) = alloc s1;
          s3 = s2\<lparr>entry_heap := (entry_heap s2)
                     (e := \<lparr>plugin = plg, critical = crit, handle = None,
                             entry_features = []\<rparr>),
                   plugins := plugins s2 @ [e]\<rparr>
      in register_features env e s3)"

definition add_path ::
  "string option \<Rightarrow> 'a private_plugin_loader_t \<Rightarrow> 'a private_plugin_loader_t" where
  "add_path path s =
     s\<lparr>paths := Some ((case paths s of None \<Rightarrow> [] | Some ps \<Rightarrow> ps) @ [path])\<rparr>"

definition plugin_loaded :: "'a private_plugin_loader_t \<Rightarrow> string \<Rightarrow> bool" where
  "plugin_loaded s name =
     list_ex (\<lambda>e. get_name (plugin (entry_heap s e)) = name) (plugins s)"

text \<open>
  \<open>loaded_plugins_list\<close> writes the names into a buffer of 128 bytes that is doubled
  at most once per name. \<open>append_names\<close> is its loop: \<open>buf_len\<close> and \<open>len\<close> are the
  C variables, \<open>buf\<close> is the C string in the buffer (the bytes before the first NUL)
  and \<open>trunc\<close> tells that an \<open>snprintf\<close> was truncated, after which \<open>len\<close> lies behind
  the terminating NUL and later output does not extend the string. \<open>snprintf\<close> with
  size \<open>n > 0\<close> writes at most \<open>n - 1\<close> characters and a NUL, with size \<open>0\<close> it writes
  nothing, and it returns the untruncated length. A negative size (converted to a huge
  \<open>size_t\<close>) or a read of \<open>buf[len - 1]\<close> outside the buffer is undefined behaviour:
  \<open>None\<close>.
\<close>

fun append_names ::
  "string list \<Rightarrow> nat \<Rightarrow> nat \<Rightarrow> string \<Rightarrow> bool \<Rightarrow> (nat \<times> nat \<times> string \<times> bool) option" where
  "append_names [] buf_len len buf trunc = Some (buf_len, len, buf, trunc)"
| "append_names (name # names) buf_len len buf trunc =
     (let buf_len1 = (if len + (length name + 1) \<ge> buf_len then 2 * buf_len else buf_len)
      in if buf_len1 < len then None
         else append_names names buf_len1 (len + (length name + 1))
                (if trunc then buf else buf @ take (buf_len1 - len - 1) (name @ '' ''))
                (trunc \<or> buf_len1 - len \<le> length name + 1))"

definition loaded_plugins_list :: "'a private_plugin_loader_t \<Rightarrow> string option" where
  "loaded_plugins_list s =
     (case append_names (map (\<lambda>e. get_name (plugin (entry_heap s e))) (plugins s))
             128 0 [] False of
        None \<Rightarrow> None
      | Some (buf_len, len, buf, trunc) \<Rightarrow>
          if len > 0 then
            if buf_len \<le> len - 1 then None
            else if \<not> trunc \<and> last buf = CHR '' '' then Some (butlast buf)
            else Some buf
          else Some buf)"

text \<open>
  Modelled from the spec: \<open>enumerator_create_token(list, " ", " ")\<close> of
  collections/enumerator.c is not part of the sources. It yields the non-empty
  tokens of a whitespace-separated list.
\<close>

fun split_tokens :: "string \<Rightarrow> string \<Rightarrow> string list" where
  "split_tokens cur [] = (if cur = [] then [] else [cur])"
| "split_tokens cur (c # cs) =
     (if c = CHR '' '' then
        (if cur = [] then split_tokens [] cs else cur # split_tokens [] cs)
      else split_tokens (cur @ [c]) cs)"

definition enumerator_create_token :: "string \<Rightarrow> string list" where
  "enumerator_create_token list = split_tokens [] list"

text \<open>
  The file that \<open>load_plugins\<close> hands to \<open>load_plugin\<close>: the first hit in the
  search paths, or else the one in the default directory.
\<close>

definition plugin_file ::
  "'a env \<Rightarrow> 'a private_plugin_loader_t \<Rightarrow> string \<Rightarrow> string option" where
  "plugin_file env s token =
     (case (case paths s of
              None \<Rightarrow> None
            | Some ps \<Rightarrow> find_in_paths env ps token) of
        Some f \<Rightarrow> Some f
      | None \<Rightarrow> find_plugin env (plugindir env) token)"

text \<open>
  The \<open>while\<close> loop of \<open>load_plugins\<close> over the tokens; the result is
  \<open>critical_failed\<close> and the state. Tokens are not empty, so \<open>token[len-1]\<close> is
  the last character.
\<close>

fun load_tokens ::
  "'a env \<Rightarrow> string list \<Rightarrow> 'a private_plugin_loader_t \<Rightarrow>
   bool \<times> 'a private_plugin_loader_t" where
  "load_tokens env [] s = (False, s)"
| "load_tokens env (tok # toks) s =
     (let crit = (tok \<noteq> [] \<and> last tok = CHR ''!'');
          token = (if crit then butlast tok else tok)
      in if plugin_loaded s token then load_tokens env toks s
         else
           (let file = plugin_file env s token
            in case load_plugin env token file crit s of
                 (Some e, s1) \<Rightarrow> load_tokens env toks (register_features env e s1)
               | (None, s1) \<Rightarrow> if crit then (True, s1) else load_tokens env toks s1))"

definition load_plugins ::
  "'a env \<Rightarrow> nat \<Rightarrow> string \<Rightarrow> 'a private_plugin_loader_t \<Rightarrow>
   (bool \<times> 'a private_plugin_loader_t) option" where
  "load_plugins env n list s =
     (case load_tokens env (enumerator_create_token list) s of
        (True, s1) \<Rightarrow> Some (False, s1)
      | (False, s1) \<Rightarrow>
          (case load_features env n s1 of
             None \<Rightarrow> None
           | Some s2 \<Rightarrow>
               (let s3 = purge_plugins env s2
                in if 0 <s stats_critical s2 then Some (False, s3)
                   else (case loaded_plugins_list s3 of
                           None \<Rightarrow> None
                         | Some names \<Rightarrow>
                             Some (True, s3\<lparr>loaded_plugins_str := Some names\<rparr>)))))"

text \<open>
  \<open>unload_features\<close> walks the list of loaded features from the front and removes
  each element; the unload callback of the plugin has no effect on the loader.
\<close>

fun unload_list ::
  "'a env \<Rightarrow> nat list \<Rightarrow> 'a private_plugin_loader_t \<Rightarrow> 'a private_plugin_loader_t" where
  "unload_list env [] s = s"
| "unload_list env (provided # ps) s =
     (let e = entry (provided_heap s provided);
          s1 = s\<lparr>entry_heap := (entry_heap s)
                    (e := (entry_heap s e)
                       \<lparr>entry_features := removeAll provided (entry_features (entry_heap s e))\<rparr>)\<rparr>
      in unload_list env ps (unregister_feature env provided s1))"

definition unload_features ::
  "'a env \<Rightarrow> 'a private_plugin_loader_t \<Rightarrow> 'a private_plugin_loader_t" where
  "unload_features env s = unload_list env (loaded_list s) (s\<lparr>loaded_list := []\<rparr>)"

text \<open>
  The \<open>while\<close> loop of \<open>unload\<close>, which takes the entries from the end of the
  plugin list; it receives the list reversed.
\<close>

fun unload_entries ::
  "'a env \<Rightarrow> nat list \<Rightarrow> 'a private_plugin_loader_t \<Rightarrow> 'a private_plugin_loader_t" where
  "unload_entries env [] s = s"
| "unload_entries env (e # es) s =
     (let s1 = (if leak_detective env
                then s\<lparr>entry_heap := (entry_heap s)(e := (entry_heap s e)\<lparr>handle := None\<rparr>)\<rparr>
                else s)
      in unload_entries env es (unregister_features env e s1))"

definition unload ::
  "'a env \<Rightarrow> 'a private_plugin_loader_t \<Rightarrow> 'a private_plugin_loader_t" where
  "unload env s =
     (let s1 = unload_features env s;
          s2 = unload_entries env (rev (plugins s1)) (s1\<lparr>plugins := []\<rparr>)
      in s2\<lparr>loaded_plugins_str := None,
            stats_failed := 0, stats_depends := 0, stats_critical := 0\<rparr>)"

definition loaded_plugins :: "'a private_plugin_loader_t \<Rightarrow> string" where
  "loaded_plugins s = (case loaded_plugins_str s of None \<Rightarrow> [] | Some str \<Rightarrow> str)"

section \<open>Vocabulary of the specification\<close>

text \<open>
  The dependency suffix of a provided feature: the cells after the PROVIDE cell as far
  as \<open>load_dependencies\<close> walks them, that is while their kind is DEPENDS or SDEPEND.
\<close>

definition dependency_suffix :: "'a feature_ptr \<Rightarrow> 'a plugin_feature_t list" where
  "dependency_suffix fp =
     takeWhile (\<lambda>d. kind d = FEATURE_DEPENDS \<or> kind d = FEATURE_SDEPEND) (rest fp)"

text \<open>The verdict of the load callback of a provided feature in a state.\<close>

definition load_callback ::
  "'a env \<Rightarrow> 'a private_plugin_loader_t \<Rightarrow> nat \<Rightarrow> bool" where
  "load_callback env s p =
     plugin_feature_load env (plugin (entry_heap s (entry (provided_heap s p))))
       (feature (provided_heap s p)) (reg (provided_heap s p))"

text \<open>
  The provided features of the loader are those in the feature lists of the entries of
  the plugin list; the registered providers are those in the lists of the registry.
\<close>

definition provided_set :: "'a private_plugin_loader_t \<Rightarrow> nat set" where
  "provided_set s = (\<Union>e\<in>set (plugins s). set (entry_features (entry_heap s e)))"

definition registered_set :: "'a private_plugin_loader_t \<Rightarrow> nat set" where
  "registered_set s = (\<Union>r\<in>set (features s). set (reg_plugins r))"

definition descriptor :: "'a private_plugin_loader_t \<Rightarrow> nat \<Rightarrow> 'a plugin_feature_t" where
  "descriptor s p = target (feature (provided_heap s p))"

text \<open>
  What the loader relies on in the matcher of plugin\_feature.c, which is not part of
  the sources: \<open>plugin_feature_equals\<close> is the key equality of the hash table, an
  equivalence, and \<open>plugin_feature_matches\<close> does not distinguish descriptors that are
  equal (the specification: equal payloads are identical).
\<close>

definition matcher_ok :: "'a env \<Rightarrow> bool" where
  "matcher_ok env =
     ((\<forall>a. plugin_feature_equals env a a) \<and>
      (\<forall>a b. plugin_feature_equals env a b \<longrightarrow> plugin_feature_equals env b a) \<and>
      (\<forall>a b c. plugin_feature_equals env a b \<longrightarrow> plugin_feature_equals env b c \<longrightarrow>
          plugin_feature_equals env a c) \<and>
      (\<forall>d a b. plugin_feature_equals env a b \<longrightarrow> plugin_feature_matches env d a \<longrightarrow>
          plugin_feature_matches env d b))"

text \<open>No two registered features have equal keys.\<close>

definition keys_distinct :: "'a env \<Rightarrow> 'a registered_feature_t list \<Rightarrow> bool" where
  "keys_distinct env tbl =
     (\<forall>i<length tbl. \<forall>j<length tbl. i \<noteq> j \<longrightarrow>
        \<not> plugin_feature_equals env (target (reg_feature (tbl ! i)))
             (target (reg_feature (tbl ! j))))"

text \<open>Every provider of a registered feature has a descriptor equal to its key.\<close>

definition providers_equal :: "'a env \<Rightarrow> 'a private_plugin_loader_t \<Rightarrow> bool" where
  "providers_equal env s =
     (\<forall>r\<in>set (features s). \<forall>q\<in>set (reg_plugins r).
        plugin_feature_equals env (descriptor s q) (target (reg_feature r)))"

text \<open>
  C1: every hard dependency of a loaded provided feature is matched by the descriptor of
  a loaded provided feature. The descriptor of the dependency is the first argument of
  \<open>plugin_feature_matches\<close> and the provided one the second, as in
  \<open>loaded_feature_matches\<close>.
\<close>

definition dependencies_satisfied :: "'a env \<Rightarrow> 'a private_plugin_loader_t \<Rightarrow> bool" where
  "dependencies_satisfied env s =
     (\<forall>p\<in>provided_set s. loaded (provided_heap s p) \<longrightarrow>
        (\<forall>d\<in>set (dependency_suffix (feature (provided_heap s p))).
           kind d = FEATURE_DEPENDS \<longrightarrow>
           (\<exists>q\<in>provided_set s. loaded (provided_heap s q) \<and>
                plugin_feature_matches env d (descriptor s q))))"

text \<open>
  The invariant of the registry: it is keyed without duplicates, lists only providers
  with an equal descriptor, and holds no registered feature without provider.
\<close>

definition registry_inv :: "'a env \<Rightarrow> 'a private_plugin_loader_t \<Rightarrow> bool" where
  "registry_inv env s =
     (keys_distinct env (features s) \<and> providers_equal env s \<and>
      (\<forall>r\<in>set (features s). reg_plugins r \<noteq> []))"

text \<open>
  The invariant of the resolver, which holds between and during the calls of the
  loading functions: the invariant of the registry, every registered provider is a
  provided feature, addresses in use are below \<open>heap_top\<close>, provided features point
  back to their entry, and the dependencies of loaded features are satisfied.
\<close>

definition resolver_inv :: "'a env \<Rightarrow> 'a private_plugin_loader_t \<Rightarrow> bool" where
  "resolver_inv env s =
     (registry_inv env s \<and>
      registered_set s \<subseteq> provided_set s \<and>
      (\<forall>e\<in>set (plugins s). e < heap_top s) \<and>
      (\<forall>p\<in>provided_set s. p < heap_top s) \<and>
      (\<forall>e\<in>set (plugins s). \<forall>p\<in>set (entry_features (entry_heap s e)).
         entry (provided_heap s p) = e) \<and>
      dependencies_satisfied env s)"

text \<open>
  The invariant of the loader between two calls of its interface: the invariant of the
  resolver, and no provided feature is marked as loading.
\<close>

definition loader_inv :: "'a env \<Rightarrow> 'a private_plugin_loader_t \<Rightarrow> bool" where
  "loader_inv env s =
     (resolver_inv env s \<and> (\<forall>p\<in>provided_set s. \<not> loading (provided_heap s p)))"

text \<open>
  The states of a loader: created by \<open>plugin_loader_create\<close> and changed by the
  operations of its interface.
\<close>

inductive reachable :: "'a env \<Rightarrow> 'a private_plugin_loader_t \<Rightarrow> bool" for env :: "'a env" where
  reachable_create: "reachable env plugin_loader_create"
| reachable_add_static_features:
    "reachable env s \<Longrightarrow> reachable env (add_static_features env name feats crit s)"
| reachable_add_path: "reachable env s \<Longrightarrow> reachable env (add_path path s)"
| reachable_load:
    "reachable env s \<Longrightarrow> load_plugins env n list s = Some (r, s') \<Longrightarrow> reachable env s'"
| reachable_unload: "reachable env s \<Longrightarrow> reachable env (unload env s)"

text \<open>
  What the loading functions leave unchanged: the lists, the registry, the entries and
  the immutable fields of the provided features; the flags \<open>loaded\<close> and \<open>failed\<close> are
  never cleared.
\<close>

definition frame :: "'a private_plugin_loader_t \<Rightarrow> 'a private_plugin_loader_t \<Rightarrow> bool" where
  "frame s s' =
     (plugins s' = plugins s \<and> features s' = features s \<and> paths s' = paths s \<and>
      loaded_plugins_str s' = loaded_plugins_str s \<and> entry_heap s' = entry_heap s \<and>
      heap_top s' = heap_top s \<and>
      (\<forall>q. entry (provided_heap s' q) = entry (provided_heap s q) \<and>
           reg (provided_heap s' q) = reg (provided_heap s q) \<and>
           feature (provided_heap s' q) = feature (provided_heap s q) \<and>
           loading (provided_heap s' q) = loading (provided_heap s q) \<and>
           (loaded (provided_heap s q) \<longrightarrow> loaded (provided_heap s' q)) \<and>
           (failed (provided_heap s q) \<longrightarrow> failed (provided_heap s' q))))"

text \<open>An entry survives \<open>purge_plugins\<close> when it has no feature interface or a loaded feature.\<close>

definition survives :: "'a private_plugin_loader_t \<Rightarrow> nat \<Rightarrow> bool" where
  "survives s e =
     (get_features (plugin (entry_heap s e)) = None \<or>
      list_ex (is_feature_loaded s) (entry_features (entry_heap s e)))"

text \<open>A weaker frame, which also allows the flag \<open>loading\<close> to change.\<close>

definition flags_frame :: "'a private_plugin_loader_t \<Rightarrow> 'a private_plugin_loader_t \<Rightarrow> bool" where
  "flags_frame s s' =
     (plugins s' = plugins s \<and> features s' = features s \<and> entry_heap s' = entry_heap s \<and>
      heap_top s' = heap_top s \<and>
      (\<forall>q. entry (provided_heap s' q) = entry (provided_heap s q) \<and>
           feature (provided_heap s' q) = feature (provided_heap s q) \<and>
           (loaded (provided_heap s q) \<longrightarrow> loaded (provided_heap s' q))))"

text \<open>
  The provided features that the resolver can reach, through the entries or through the
  registry, and the number of them that are still loadable: the features that a run of
  the resolver can still mark as failed.
\<close>

definition known :: "'a private_plugin_loader_t \<Rightarrow> nat set" where
  "known s = provided_set s \<union> registered_set s"

definition pending :: "'a private_plugin_loader_t \<Rightarrow> nat" where
  "pending s =
     length (filter (is_feature_loadable s)
       (remdups (concat (map (\<lambda>e. entry_features (entry_heap s e)) (plugins s)) @
                 concat (map reg_plugins (features s)))))"

text \<open>
  The accounting of the resolver between two states, for a call that may fail \<open>c\<close>
  features that are not counted in \<open>pending\<close>: each counter has grown by a number of
  increments (modulo \<open>2 ^ 32\<close>), \<open>stats.depends\<close> and \<open>stats.critical\<close> by no more
  than \<open>stats.failed\<close>, every increment of \<open>stats.failed\<close> has used up a loadable
  feature, and \<open>stats.critical\<close> has been incremented if a feature of a critical entry
  has newly failed.
\<close>

definition counted ::
  "'a private_plugin_loader_t \<Rightarrow> 'a private_plugin_loader_t \<Rightarrow> nat \<Rightarrow> bool" where
  "counted s s' c =
     (\<exists>kf kd kc.
        stats_failed s' = stats_failed s + of_nat kf \<and>
        stats_depends s' = stats_depends s + of_nat kd \<and>
        stats_critical s' = stats_critical s + of_nat kc \<and>
        kd \<le> kf \<and> kc \<le> kf \<and> kf + pending s' \<le> pending s + c \<and>
        ((\<exists>p. failed (provided_heap s' p) \<and> \<not> failed (provided_heap s p) \<and>
              critical (entry_heap s (entry (provided_heap s p)))) \<longrightarrow> 1 \<le> kc))"


section \<open>Scenarios\<close>

text \<open>
  Modelled from the spec: the concrete matcher of plugin\_feature.c is not part of the
  sources. The scenarios of the specification abbreviate feature payloads as capability
  identifiers, which match and are equal exactly when they are the same identifier. The
  environment \<open>two_plugins\<close> knows the constructors of two plugins named M and N in the
  default symbol namespace, with the given descriptor arrays and load callback, and
  nothing else.
\<close>

definition two_plugins ::
  "'a plugin_feature_t list \<Rightarrow> 'a plugin_feature_t list \<Rightarrow>
   ('a plugin_t \<Rightarrow> 'a feature_ptr \<Rightarrow> 'a feature_ptr option \<Rightarrow> bool) \<Rightarrow> 'a env" where
  "two_plugins fm fn cb =
     \<lparr>plugin_feature_matches = (\<lambda>a b. arg a = arg b),
      plugin_feature_equals = (\<lambda>a b. arg a = arg b),
      plugin_feature_load = cb,
      dlsym = (\<lambda>h sym.
         if h = None \<and> sym = ''M_plugin_create''
         then Some (Some \<lparr>get_name = ''M'', get_features = Some (0, fm)\<rparr>)
         else if h = None \<and> sym = ''N_plugin_create''
         then Some (Some \<lparr>get_name = ''N'', get_features = Some (1, fn)\<rparr>)
         else None),
      dlopen = (\<lambda>_. None), stat = (\<lambda>_. False), integrity = None,
      leak_detective = False, plugindir = None, path_max = 4096\<rparr>"

definition hard_cycle ::
  "'a \<Rightarrow> 'a \<Rightarrow> ('a plugin_t \<Rightarrow> 'a feature_ptr \<Rightarrow> 'a feature_ptr option \<Rightarrow> bool) \<Rightarrow> 'a env" where
  "hard_cycle P Q cb =
     two_plugins [\<lparr>kind = FEATURE_PROVIDE, arg = P\<rparr>, \<lparr>kind = FEATURE_DEPENDS, arg = Q\<rparr>]
                 [\<lparr>kind = FEATURE_PROVIDE, arg = Q\<rparr>, \<lparr>kind = FEATURE_DEPENDS, arg = P\<rparr>] cb"

definition soft_cycle ::
  "'a \<Rightarrow> 'a \<Rightarrow> ('a plugin_t \<Rightarrow> 'a feature_ptr \<Rightarrow> 'a feature_ptr option \<Rightarrow> bool) \<Rightarrow> 'a env" where
  "soft_cycle P Q cb =
     two_plugins [\<lparr>kind = FEATURE_PROVIDE, arg = P\<rparr>, \<lparr>kind = FEATURE_SDEPEND, arg = Q\<rparr>]
                 [\<lparr>kind = FEATURE_PROVIDE, arg = Q\<rparr>, \<lparr>kind = FEATURE_SDEPEND, arg = P\<rparr>] cb"

text \<open>A single plugin M with one feature without dependencies, whose load callback fails.\<close>

definition failing_callback :: "nat env" where
  "failing_callback = two_plugins [\<lparr>kind = FEATURE_PROVIDE, arg = 1\<rparr>] [] (\<lambda>_ _ _. False)"

definition failing_state :: "nat private_plugin_loader_t" where
  "failing_state = snd (load_tokens failing_callback [''M!''] plugin_loader_create)"

text \<open>
  The loader after \<open>k\<close> calls of \<open>load\<close> with the list \<open>M!\<close> and no \<open>unload\<close> in
  between: each call fails the critical feature of M and purges the entry.
\<close>

fun failing_loads :: "nat \<Rightarrow> nat private_plugin_loader_t" where
  "failing_loads 0 = plugin_loader_create"
| "failing_loads (Suc k) =
     snd (the (load_plugins failing_callback 5 ''M!'' (failing_loads k)))"


text \<open>The names of a list, separated by single spaces.\<close>

definition join_names :: "string list \<Rightarrow> string" where
  "join_names names = butlast (concat (map (\<lambda>name. name @ '' '') names))"

text \<open>
  No plugin object answers \<open>get_name\<close> with more than 127 characters: the plugins
  of the entries in the list and those the constructors known to \<open>dlsym\<close> return.
  Then every name fits the buffer of \<open>loaded_plugins_list\<close>.
\<close>

definition names_fit :: "'a env \<Rightarrow> 'a private_plugin_loader_t \<Rightarrow> bool" where
  "names_fit env s =
     ((\<forall>e\<in>set (plugins s). length (get_name (plugin (entry_heap s e))) \<le> 127) \<and>
      (\<forall>h sym plg. dlsym env h sym = Some (Some plg) \<longrightarrow> length (get_name plg) \<le> 127))"

text \<open>
  More scenarios: M provides \<open>P\<close> with a hard dependency on \<open>Q\<close>, which N provides; two
  static feature sets A and B that both provide the feature 1; two plugins M and N
  with empty descriptor arrays; and two plugins named a and x without feature
  interface, where the object of the first answers \<open>get_name\<close> with 255 characters.
\<close>

definition chain ::
  "'a \<Rightarrow> 'a \<Rightarrow> ('a plugin_t \<Rightarrow> 'a feature_ptr \<Rightarrow> 'a feature_ptr option \<Rightarrow> bool) \<Rightarrow> 'a env" where
  "chain P Q cb =
     two_plugins [\<lparr>kind = FEATURE_PROVIDE, arg = P\<rparr>, \<lparr>kind = FEATURE_DEPENDS, arg = Q\<rparr>]
                 [\<lparr>kind = FEATURE_PROVIDE, arg = Q\<rparr>] cb"

definition featureless :: "nat env" where
  "featureless = two_plugins [] [] (\<lambda>_ _ _. True)"


definition shared_state :: "nat private_plugin_loader_t" where
  "shared_state =
     add_static_features featureless ''B'' [\<lparr>kind = FEATURE_PROVIDE, arg = 1\<rparr>] False
       (add_static_features featureless ''A'' [\<lparr>kind = FEATURE_PROVIDE, arg = 1\<rparr>] False
          plugin_loader_create)"

definition long_names :: "nat env" where
  "long_names =
     \<lparr>plugin_feature_matches = (\<lambda>a b. arg a = arg b),
      plugin_feature_equals = (\<lambda>a b. arg a = arg b),
      plugin_feature_load = (\<lambda>_ _ _. True),
      dlsym = (\<lambda>h sym.
         if h = None \<and> sym = ''a_plugin_create''
         then Some (Some \<lparr>get_name = replicate 255 CHR ''a'', get_features = None\<rparr>)
         else if h = None \<and> sym = ''x_plugin_create''
         then Some (Some \<lparr>get_name = ''x'', get_features = None\<rparr>)
         else None),
      dlopen = (\<lambda>_. None), stat = (\<lambda>_. False), integrity = None,
      leak_detective = False, plugindir = None, path_max = 4096\<rparr>"

text \<open>
  A plugin named a whose object does not implement the feature interface, and a plugin M
  with one feature without dependencies; \<open>cb\<close> is the load callback.
\<close>

definition legacy ::
  "(nat plugin_t \<Rightarrow> nat feature_ptr \<Rightarrow> nat feature_ptr option \<Rightarrow> bool) \<Rightarrow> nat env" where
  "legacy cb =
     \<lparr>plugin_feature_matches = (\<lambda>a b. arg a = arg b),
      plugin_feature_equals = (\<lambda>a b. arg a = arg b),
      plugin_feature_load = cb,
      dlsym = (\<lambda>h sym.
         if h = None \<and> sym = ''a_plugin_create''
         then Some (Some \<lparr>get_name = ''a'', get_features = None\<rparr>)
         else if h = None \<and> sym = ''M_plugin_create''
         then Some (Some \<lparr>get_name = ''M'',
                           get_features = Some (0, [\<lparr>kind = FEATURE_PROVIDE, arg = 1\<rparr>])\<rparr>)
         else None),
      dlopen = (\<lambda>_. None), stat = (\<lambda>_. False), integrity = None,
      leak_detective = False, plugindir = None, path_max = 4096\<rparr>"

definition legacy_failing :: "nat env" where
  "legacy_failing = legacy (\<lambda>_ _ _. False)"

definition legacy_loading :: "nat env" where
  "legacy_loading = legacy (\<lambda>_ _ _. True)"

section \<open>Properties\<close>

subsection \<open>Fuel\<close>

text \<open>More fuel never changes a result.\<close>

lemma fuel_mono_all:
  "(\<forall>p s r. load_provided env n p s = Some r \<longrightarrow> load_provided env (n + k) p s = Some r) \<and>
   (\<forall>p s r. load_feature env n p s = Some r \<longrightarrow> load_feature env (n + k) p s = Some r) \<and>
   (\<forall>ds s r. load_dependencies env n ds s = Some r \<longrightarrow>
       load_dependencies env (n + k) ds s = Some r) \<and>
   (\<forall>d s r. load_matching env n d s = Some r \<longrightarrow> load_matching env (n + k) d s = Some r) \<and>
   (\<forall>ps s r. load_registered env n ps s = Some r \<longrightarrow>
       load_registered env (n + k) ps s = Some r)"
proof (induction n)
  case 0
  show ?case by simp
next
  case (Suc n)
  have P: "\<And>p s r. load_provided env n p s = Some r \<Longrightarrow> load_provided env (n + k) p s = Some r"
    and F: "\<And>p s r. load_feature env n p s = Some r \<Longrightarrow> load_feature env (n + k) p s = Some r"
    and D: "\<And>ds s r. load_dependencies env n ds s = Some r \<Longrightarrow>
              load_dependencies env (n + k) ds s = Some r"
    and M: "\<And>d s r. load_matching env n d s = Some r \<Longrightarrow> load_matching env (n + k) d s = Some r"
    and R: "\<And>ps s r. load_registered env n ps s = Some r \<Longrightarrow>
              load_registered env (n + k) ps s = Some r"
    using Suc by blast+
  have 1: "load_provided env (Suc n + k) p s = Some r"
    if "load_provided env (Suc n) p s = Some r" for p s r
    using that by (auto split: if_splits option.splits dest: F)
  have 2: "load_feature env (Suc n + k) p s = Some r"
    if "load_feature env (Suc n) p s = Some r" for p s r
    using that by (auto split: option.splits dest!: D)
  have 3: "load_dependencies env (Suc n + k) ds s = Some r"
    if "load_dependencies env (Suc n) ds s = Some r" for ds s r
    using that by (cases ds) (auto split: if_splits option.splits dest: D dest!: M)
  have 4: "load_matching env (Suc n + k) d s = Some r"
    if "load_matching env (Suc n) d s = Some r" for d s r
    using that by (auto split: option.splits dest!: R dest: M)
  have 5: "load_registered env (Suc n + k) ps s = Some r"
    if "load_registered env (Suc n) ps s = Some r" for ps s r
    using that by (cases ps) (auto split: option.splits dest!: P dest: R)
  show ?case using 1 2 3 4 5 by blast
qed

lemma load_provided_fuel:
  "load_provided env n p s = Some r \<Longrightarrow> n \<le> m \<Longrightarrow> load_provided env m p s = Some r"
  using fuel_mono_all[of env n "m - n"] by simp

lemma load_feature_fuel:
  "load_feature env n p s = Some r \<Longrightarrow> n \<le> m \<Longrightarrow> load_feature env m p s = Some r"
  using fuel_mono_all[of env n "m - n"] by simp




lemma load_features_inner_fuel:
  "load_features_inner env n ps s = Some r \<Longrightarrow> n \<le> m \<Longrightarrow>
   load_features_inner env m ps s = Some r"
  by (induction ps arbitrary: s) (auto split: option.splits dest: load_provided_fuel)

lemma load_features_outer_fuel:
  "load_features_outer env n es s = Some r \<Longrightarrow> n \<le> m \<Longrightarrow>
   load_features_outer env m es s = Some r"
  by (induction es arbitrary: s) (auto split: option.splits dest: load_features_inner_fuel)

lemma load_features_fuel:
  "load_features env n s = Some r \<Longrightarrow> n \<le> m \<Longrightarrow> load_features env m s = Some r"
  unfolding load_features_def by (rule load_features_outer_fuel)

lemma load_plugins_fuel:
  "load_plugins env n l s = Some r \<Longrightarrow> n \<le> m \<Longrightarrow> load_plugins env m l s = Some r"
  unfolding load_plugins_def
  by (auto split: prod.splits bool.splits option.splits if_splits
           dest: load_features_fuel simp: Let_def)

subsection \<open>The frame of the loading functions\<close>

lemma frame_refl: "frame s s"
  by (simp add: frame_def)

lemma frame_trans: "frame s s1 \<Longrightarrow> frame s1 s2 \<Longrightarrow> frame s s2"
  unfolding frame_def by (intro conjI allI; (simp; fail)?; force)

lemma frame_all:
  "(\<forall>p s r. load_provided env n p s = Some r \<longrightarrow> frame s r) \<and>
   (\<forall>p s r. load_feature env n p s = Some r \<longrightarrow> frame s r) \<and>
   (\<forall>ds s ok r. load_dependencies env n ds s = Some (ok, r) \<longrightarrow> frame s r) \<and>
   (\<forall>d s r. load_matching env n d s = Some r \<longrightarrow> frame s r) \<and>
   (\<forall>ps s r. load_registered env n ps s = Some r \<longrightarrow> frame s r)"
proof (induction n)
  case 0
  show ?case by simp
next
  case (Suc n)
  have P: "\<And>p s r. load_provided env n p s = Some r \<Longrightarrow> frame s r"
    and F: "\<And>p s r. load_feature env n p s = Some r \<Longrightarrow> frame s r"
    and D: "\<And>ds s ok r. load_dependencies env n ds s = Some (ok, r) \<Longrightarrow> frame s r"
    and M: "\<And>d s r. load_matching env n d s = Some r \<Longrightarrow> frame s r"
    and R: "\<And>ps s r. load_registered env n ps s = Some r \<Longrightarrow> frame s r"
    using Suc by blast+
  have 1: "frame s r" if "load_provided env (Suc n) p s = Some r" for p s r
  proof (cases "loaded (provided_heap s p) \<or> failed (provided_heap s p) \<or>
                loading (provided_heap s p)")
    case True
    with that show ?thesis by (auto simp: frame_refl split: if_splits)
  next
    case False
    with that obtain s1 where f: "load_feature env n p (set_loading p True s) = Some s1"
      and r: "r = set_loading p False s1"
      by (auto split: option.splits)
    from F[OF f] False show ?thesis
      unfolding r frame_def set_loading_def by (intro conjI allI; simp)
  qed
  have 2: "frame s r" if "load_feature env (Suc n) p s = Some r" for p s r
  proof -
    from that obtain ok s1 where
      d: "load_dependencies env n (rest (feature (provided_heap s p))) s = Some (ok, s1)"
      by (auto split: option.splits)
    have "frame s1 r"
      using that d unfolding frame_def
      by (auto simp: Let_def set_loaded_def set_failed_def split: if_splits)
    with D[OF d] show ?thesis by (rule frame_trans)
  qed
  have 3: "frame s r" if "load_dependencies env (Suc n) ds s = Some (ok, r)" for ds s ok r
    using that
    by (cases ds)
       (auto simp: frame_refl split: if_splits option.splits dest!: M D intro: frame_trans)
  have 4: "frame s r" if "load_matching env (Suc n) d s = Some r" for d s r
    using that by (auto simp: frame_refl split: option.splits dest!: R M intro: frame_trans)
  have 5: "frame s r" if "load_registered env (Suc n) ps s = Some r" for ps s r
    using that
    by (cases ps) (auto simp: frame_refl split: option.splits dest!: P R intro: frame_trans)
  show ?case using 1 2 3 4 5 by blast
qed

lemma load_provided_frame: "load_provided env n p s = Some r \<Longrightarrow> frame s r"
  using frame_all[of env n] by blast

lemma load_feature_frame: "load_feature env n p s = Some r \<Longrightarrow> frame s r"
  using frame_all[of env n] by blast

lemma load_dependencies_frame: "load_dependencies env n ds s = Some (ok, r) \<Longrightarrow> frame s r"
  using frame_all[of env n] by blast



lemma load_features_inner_frame: "load_features_inner env n ps s = Some r \<Longrightarrow> frame s r"
  by (induction ps arbitrary: s)
     (auto simp: frame_refl split: option.splits dest!: load_provided_frame intro: frame_trans)

lemma load_features_outer_frame: "load_features_outer env n es s = Some r \<Longrightarrow> frame s r"
  by (induction es arbitrary: s)
     (auto simp: frame_refl split: option.splits dest!: load_features_inner_frame
           intro: frame_trans)

lemma load_features_frame: "load_features env n s = Some r \<Longrightarrow> frame s r"
  unfolding load_features_def by (rule load_features_outer_frame)

subsection \<open>Evaluation of the scenarios\<close>

lemma counter_sless [simp]:
  "\<not> (0::32 word) <s 0" "(0::32 word) <s 1"
  by (simp_all add: word_sless_alt)


lemmas eval_defs =
  load_plugins_def enumerator_create_token_def plugin_loader_create_def
  load_plugin_def create_plugin_def translate_def plugin_loaded_def register_features_def
  register_provide_def alloc_def ht_get_def ht_put_def ht_remove_def ht_get_match_def
  registered_feature_equals_def find_plugin_def plugin_file_def Let_def load_features_def
  find_loadable_def
  loadable_feature_equals_def loadable_feature_matches_def loaded_feature_matches_def
  find_compatible_feature_def is_feature_loaded_def is_feature_loadable_def set_loading_def
  set_loaded_def set_failed_def purge_plugins_def unregister_features_def
  unregister_feature_def loaded_plugins_list_def ptr_eq_def

lemma hard_cycle_fuel_9:
  assumes "P \<noteq> Q"
  shows "\<exists>s'. load_plugins (hard_cycle P Q cb) 9 ''M N'' plugin_loader_create = Some (True, s') \<and>
     stats_failed s' = 2 \<and> stats_depends s' = 2 \<and> loaded_list s' = [] \<and>
     (\<forall>i. \<not> loaded (provided_heap s' i))"
  using assms
  by (simp add: hard_cycle_def two_plugins_def eval_defs eval_nat_numeral)

text \<open>
  C3. Two non-critical plugins, M providing \<open>P\<close> with a hard dependency on \<open>Q\<close> and N
  providing \<open>Q\<close> with a hard dependency on \<open>P\<close>: loading the list \<open>M N\<close> into a fresh
  loader returns true for every fuel from 9 on, no feature is loaded, and
  \<open>stats.failed\<close> and \<open>stats.depends\<close> are both 2.
\<close>

theorem hard_cycle_neither_loads:
  assumes "P \<noteq> Q" and "9 \<le> n"
  shows "\<exists>s'. load_plugins (hard_cycle P Q cb) n ''M N'' plugin_loader_create = Some (True, s') \<and>
     stats_failed s' = 2 \<and> stats_depends s' = 2 \<and> loaded_list s' = [] \<and>
     (\<forall>i. \<not> loaded (provided_heap s' i))"
proof -
  from hard_cycle_fuel_9[OF assms(1), of cb] obtain s' where
    run: "load_plugins (hard_cycle P Q cb) 9 ''M N'' plugin_loader_create = Some (True, s')"
    and rest: "stats_failed s' = 2" "stats_depends s' = 2" "loaded_list s' = []"
      "\<forall>i. \<not> loaded (provided_heap s' i)"
    by blast
  from load_plugins_fuel[OF run assms(2)] rest show ?thesis by blast
qed

theorem hard_cycle_neither_loads_witness:
  "(1::nat) \<noteq> 2 \<and> (9::nat) \<le> 9 \<and>
   (\<exists>s'. load_plugins (hard_cycle (1::nat) 2 (\<lambda>_ _ _. True)) 9 ''M N'' plugin_loader_create
            = Some (True, s') \<and>
     stats_failed s' = 2 \<and> stats_depends s' = 2 \<and> loaded_list s' = [] \<and>
     (\<forall>i. \<not> loaded (provided_heap s' i)))"
  using hard_cycle_neither_loads[of "1::nat" 2 9 "\<lambda>_ _ _. True"] by simp

subsection \<open>Soft dependencies\<close>

lemma load_dependencies_false:
  "load_dependencies env n deps s = Some (False, s1) \<Longrightarrow>
   \<exists>d\<in>set (takeWhile (\<lambda>d. kind d = FEATURE_DEPENDS \<or> kind d = FEATURE_SDEPEND) deps).
      kind d = FEATURE_DEPENDS \<and> \<not> find_compatible_feature env s1 d"
proof (induction deps arbitrary: n s)
  case Nil
  then show ?case by (cases n) auto
next
  case (Cons d deps)
  then show ?case
    by (cases n) (auto split: if_splits option.splits)
qed

lemma load_feature_cases:
  assumes "load_feature env m p s = Some s2"
  shows "\<exists>ok s1. load_dependencies env (m - 1) (rest (feature (provided_heap s p))) s
                    = Some (ok, s1) \<and>
           (ok \<longrightarrow> loaded (provided_heap s2 p) =
                   (loaded (provided_heap s1 p) \<or> load_callback env s1 p))"
  using assms
  by (cases m)
     (auto simp: load_callback_def Let_def set_loaded_def set_failed_def
           split: option.splits if_splits)

lemma soft_cycle_fuel_9:
  assumes "\<forall>pl f r. cb pl f r" "P \<noteq> Q"
  shows "\<exists>s'. load_plugins (soft_cycle P Q cb) 9 ''M N'' plugin_loader_create = Some (True, s') \<and>
     stats_failed s' = 0 \<and> stats_depends s' = 0 \<and> stats_critical s' = 0 \<and>
     map (\<lambda>p. (arg (target (feature (provided_heap s' p))), loaded (provided_heap s' p)))
       (loaded_list s') = [(P, True), (Q, True)]"
  using assms
  by (simp add: soft_cycle_def two_plugins_def eval_defs eval_nat_numeral)

text \<open>
  C4. An unsatisfied SDEPEND never prevents the load callback from being invoked:
  whenever \<open>load_feature\<close> returns, \<open>load_dependencies\<close> has returned before, a
  negative answer of it is due to a hard DEPENDS descriptor of the dependency suffix that
  no loaded feature matches, and after a positive answer the feature is loaded on the
  verdict of its load callback. In particular, for two plugins M and N whose features
  \<open>P\<close> and \<open>Q\<close> soft-depend on each other and whose load callbacks succeed, loading
  \<open>M N\<close> into a fresh loader returns true for every fuel from 9 on, both features are
  loaded, and the three failure counters are still zero.
\<close>

theorem soft_dependency_never_blocks:
  assumes "\<forall>pl f r. cb pl f r" and "P \<noteq> Q" and "9 \<le> n"
  shows
    "(load_feature env m p s = Some s2 \<longrightarrow>
        (\<exists>ok s1. load_dependencies env (m - 1) (rest (feature (provided_heap s p))) s
                    = Some (ok, s1) \<and>
           (\<not> ok \<longrightarrow> (\<exists>d\<in>set (dependency_suffix (feature (provided_heap s p))).
                         kind d = FEATURE_DEPENDS \<and> \<not> find_compatible_feature env s1 d)) \<and>
           (ok \<longrightarrow> loaded (provided_heap s2 p) =
                   (loaded (provided_heap s1 p) \<or> load_callback env s1 p)))) \<and>
     (\<exists>s'. load_plugins (soft_cycle P Q cb) n ''M N'' plugin_loader_create = Some (True, s') \<and>
        stats_failed s' = 0 \<and> stats_depends s' = 0 \<and> stats_critical s' = 0 \<and>
        map (\<lambda>p. (arg (target (feature (provided_heap s' p))), loaded (provided_heap s' p)))
          (loaded_list s') = [(P, True), (Q, True)])"
proof (intro conjI impI)
  assume run: "load_feature env m p s = Some s2"
  from load_feature_cases[OF run] obtain ok s1 where
    deps: "load_dependencies env (m - 1) (rest (feature (provided_heap s p))) s = Some (ok, s1)"
    and cb: "ok \<longrightarrow> loaded (provided_heap s2 p) =
                   (loaded (provided_heap s1 p) \<or> load_callback env s1 p)"
    by blast
  have "\<exists>d\<in>set (dependency_suffix (feature (provided_heap s p))).
          kind d = FEATURE_DEPENDS \<and> \<not> find_compatible_feature env s1 d" if "\<not> ok"
    using load_dependencies_false[of env "m - 1" _ s s1] deps that
    by (simp add: dependency_suffix_def)
  with deps cb show "\<exists>ok s1. load_dependencies env (m - 1) (rest (feature (provided_heap s p))) s
                    = Some (ok, s1) \<and>
           (\<not> ok \<longrightarrow> (\<exists>d\<in>set (dependency_suffix (feature (provided_heap s p))).
                         kind d = FEATURE_DEPENDS \<and> \<not> find_compatible_feature env s1 d)) \<and>
           (ok \<longrightarrow> loaded (provided_heap s2 p) =
                   (loaded (provided_heap s1 p) \<or> load_callback env s1 p))"
    by blast
next
  from soft_cycle_fuel_9[OF assms(1,2)] obtain s' where
    all: "load_plugins (soft_cycle P Q cb) 9 ''M N'' plugin_loader_create = Some (True, s') \<and>
      stats_failed s' = 0 \<and> stats_depends s' = 0 \<and> stats_critical s' = 0 \<and>
      map (\<lambda>p. (arg (target (feature (provided_heap s' p))), loaded (provided_heap s' p)))
         (loaded_list s') = [(P, True), (Q, True)]" ..
  then have run:
    "load_plugins (soft_cycle P Q cb) 9 ''M N'' plugin_loader_create = Some (True, s')"
    by (rule conjunct1)
  from load_plugins_fuel[OF run assms(3)] all
  have "load_plugins (soft_cycle P Q cb) n ''M N'' plugin_loader_create = Some (True, s') \<and>
      stats_failed s' = 0 \<and> stats_depends s' = 0 \<and> stats_critical s' = 0 \<and>
      map (\<lambda>p. (arg (target (feature (provided_heap s' p))), loaded (provided_heap s' p)))
         (loaded_list s') = [(P, True), (Q, True)]"
    by simp
  then show "\<exists>s'. load_plugins (soft_cycle P Q cb) n ''M N'' plugin_loader_create = Some (True, s') \<and>
        stats_failed s' = 0 \<and> stats_depends s' = 0 \<and> stats_critical s' = 0 \<and>
        map (\<lambda>p. (arg (target (feature (provided_heap s' p))), loaded (provided_heap s' p)))
          (loaded_list s') = [(P, True), (Q, True)]"
    by (rule exI)
qed

lemma failing_state_eval:
  "load_dependencies failing_callback 1 (rest (feature (provided_heap failing_state 1)))
     failing_state = Some (True, failing_state)"
  "\<not> load_callback failing_callback failing_state 1"
  "critical (entry_heap failing_state (entry (provided_heap failing_state 1)))"
  by (simp_all add: failing_state_def failing_callback_def two_plugins_def load_callback_def
        eval_defs eval_nat_numeral)

lemma failing_state_load_feature:
  "load_feature failing_callback 2 1 failing_state \<noteq> None"
  by (simp add: failing_state_def failing_callback_def two_plugins_def load_callback_def
        eval_defs eval_nat_numeral)

theorem soft_dependency_never_blocks_witness:
  "(\<forall>pl f r. (\<lambda>_ _ _. True) pl f r) \<and> (1::nat) \<noteq> 2 \<and> (9::nat) \<le> 9 \<and>
   (\<exists>s2. load_feature failing_callback 2 1 failing_state = Some s2 \<and>
      (\<exists>ok s1. load_dependencies failing_callback (2 - 1)
                  (rest (feature (provided_heap failing_state 1))) failing_state
                    = Some (ok, s1) \<and>
           (ok \<longrightarrow> loaded (provided_heap s2 1) =
                   (loaded (provided_heap s1 1) \<or> load_callback failing_callback s1 1)))) \<and>
   (\<exists>s'. load_plugins (soft_cycle (1::nat) 2 (\<lambda>_ _ _. True)) 9 ''M N'' plugin_loader_create
            = Some (True, s') \<and>
        stats_failed s' = 0 \<and> stats_depends s' = 0 \<and> stats_critical s' = 0 \<and>
        map (\<lambda>p. (arg (target (feature (provided_heap s' p))), loaded (provided_heap s' p)))
          (loaded_list s') = [(1, True), (2, True)])"
proof -
  have h: "\<forall>pl f r. (\<lambda>_ _ _. True) (pl :: nat plugin_t) (f :: nat feature_ptr)
             (r :: nat feature_ptr option)" "(1::nat) \<noteq> 2" "(9::nat) \<le> 9"
    by simp_all
  obtain s2 where run: "load_feature failing_callback 2 1 failing_state = Some s2"
    using failing_state_load_feature by blast
  note inst = soft_dependency_never_blocks[of "\<lambda>_ _ _. True" "1::nat" 2 9 failing_callback 2 1
               failing_state s2, OF h]
  have first: "\<exists>ok s1. load_dependencies failing_callback (2 - 1)
                  (rest (feature (provided_heap failing_state 1))) failing_state
                    = Some (ok, s1) \<and>
           (ok \<longrightarrow> loaded (provided_heap s2 1) =
                   (loaded (provided_heap s1 1) \<or> load_callback failing_callback s1 1))"
    using inst run by blast
  have second: "\<exists>s'. load_plugins (soft_cycle (1::nat) 2 (\<lambda>_ _ _. True)) 9 ''M N''
            plugin_loader_create = Some (True, s') \<and>
        stats_failed s' = 0 \<and> stats_depends s' = 0 \<and> stats_critical s' = 0 \<and>
        map (\<lambda>p. (arg (target (feature (provided_heap s' p))), loaded (provided_heap s' p)))
          (loaded_list s') = [(1, True), (2, True)]"
    using inst by blast
  from h run first second show ?thesis by blast
qed

subsection \<open>Accounting of a failed feature\<close>

text \<open>
  C5 as stated fails: a plugin M, marked critical, with a single feature without
  dependencies whose load callback returns false. After loading \<open>M!\<close> into a fresh
  loader, \<open>stats.failed\<close> and \<open>stats.critical\<close> are 1, but \<open>stats.depends\<close> is
  still 0.
\<close>

theorem callback_failure_not_counted_as_dependency:
  "map_option fst (load_plugins failing_callback 5 ''M!'' plugin_loader_create) = Some False \<and>
   map_option (stats_failed \<circ> snd) (load_plugins failing_callback 5 ''M!'' plugin_loader_create)
     = Some 1 \<and>
   map_option (stats_critical \<circ> snd) (load_plugins failing_callback 5 ''M!'' plugin_loader_create)
     = Some 1 \<and>
   map_option (stats_depends \<circ> snd) (load_plugins failing_callback 5 ''M!'' plugin_loader_create)
     = Some 0"
  by (simp add: failing_callback_def two_plugins_def eval_defs eval_nat_numeral)

text \<open>
  C5 amended. When \<open>load_dependencies\<close> has answered and either the answer is negative
  (an unmet hard dependency) or the load callback returns false, \<open>load_feature\<close> marks
  the feature failed, increments \<open>stats.failed\<close>, and increments \<open>stats.critical\<close>
  when the owning entry is critical; \<open>stats.depends\<close> is incremented for the unmet
  dependency only and is left unchanged when the callback failed.
\<close>

theorem load_feature_failure_accounting:
  assumes "load_dependencies env n (rest (feature (provided_heap s p))) s = Some (ok, s1)"
    and "ok \<longrightarrow> \<not> load_callback env s1 p"
  shows "\<exists>s2. load_feature env (Suc n) p s = Some s2 \<and>
     failed (provided_heap s2 p) \<and>
     stats_failed s2 = stats_failed s1 + 1 \<and>
     stats_critical s2 = stats_critical s1 +
        (if critical (entry_heap s1 (entry (provided_heap s1 p))) then 1 else 0) \<and>
     stats_depends s2 = stats_depends s1 + (if ok then 0 else 1)"
  using assms
  by (auto simp: load_callback_def Let_def set_failed_def)

theorem load_feature_failure_accounting_witness:
  "load_dependencies failing_callback 1 (rest (feature (provided_heap failing_state 1)))
     failing_state = Some (True, failing_state) \<and>
   \<not> load_callback failing_callback failing_state 1 \<and>
   (\<exists>s2. load_feature failing_callback (Suc 1) 1 failing_state = Some s2 \<and>
     failed (provided_heap s2 1) \<and>
     stats_failed s2 = stats_failed failing_state + 1 \<and>
     stats_critical s2 = stats_critical failing_state + 1 \<and>
     stats_depends s2 = stats_depends failing_state)"
  using load_feature_failure_accounting[of failing_callback 1 failing_state 1 True failing_state]
    failing_state_eval
  by simp

subsection \<open>The registry\<close>

lemma find_index_opt_Some:
  "find_index_opt P xs = Some i \<Longrightarrow> i < length xs \<and> P (xs ! i) \<and> (\<forall>j<i. \<not> P (xs ! j))"
proof (induction xs arbitrary: i)
  case Nil
  then show ?case by simp
next
  case (Cons x xs)
  show ?case
  proof (cases "P x")
    case True
    with Cons.prems show ?thesis by simp
  next
    case False
    with Cons.prems obtain k where k: "find_index_opt P xs = Some k" "i = Suc k"
      by (auto split: option.splits)
    from Cons.IH[OF k(1)] False k(2) show ?thesis
      by (auto simp: less_Suc_eq_0_disj)
  qed
qed

lemma find_index_opt_None: "find_index_opt P xs = None \<longleftrightarrow> (\<forall>x\<in>set xs. \<not> P x)"
  by (induction xs) (auto split: option.splits)

lemma remove_nth_conv: "remove_nth i xs = take i xs @ drop (Suc i) xs"
  by (induction i xs rule: remove_nth.induct) auto

lemma set_remove_nth: "set (remove_nth i xs) \<subseteq> set xs"
  unfolding remove_nth_conv by (auto dest: in_set_takeD in_set_dropD)

lemma length_remove_nth: "i < length xs \<Longrightarrow> length (remove_nth i xs) = length xs - 1"
  unfolding remove_nth_conv by simp

lemma nth_remove_nth:
  "i < length xs \<Longrightarrow> j < length xs - 1 \<Longrightarrow>
   remove_nth i xs ! j = (if j < i then xs ! j else xs ! Suc j)"
  unfolding remove_nth_conv by (auto simp: nth_append min_def)

lemma ht_get_Some:
  "ht_get env tbl lookup = Some i \<Longrightarrow>
   i < length tbl \<and> plugin_feature_equals env (target lookup) (target (reg_feature (tbl ! i)))"
  unfolding ht_get_def by (auto dest!: find_index_opt_Some simp: registered_feature_equals_def)

lemma ht_get_None:
  "ht_get env tbl lookup = None \<longleftrightarrow>
   (\<forall>r\<in>set tbl. \<not> plugin_feature_equals env (target lookup) (target (reg_feature r)))"
  unfolding ht_get_def by (simp add: find_index_opt_None registered_feature_equals_def)

lemma keys_distinct_unique:
  assumes "matcher_ok env" "keys_distinct env tbl" "i < length tbl" "j < length tbl"
    and "plugin_feature_equals env k (target (reg_feature (tbl ! i)))"
    and "plugin_feature_equals env k (target (reg_feature (tbl ! j)))"
  shows "i = j"
proof (rule ccontr)
  assume "i \<noteq> j"
  with assms(2-4) have "\<not> plugin_feature_equals env (target (reg_feature (tbl ! i)))
             (target (reg_feature (tbl ! j)))"
    unfolding keys_distinct_def by blast
  moreover from assms(1,5,6) have "plugin_feature_equals env (target (reg_feature (tbl ! i)))
             (target (reg_feature (tbl ! j)))"
    unfolding matcher_ok_def by blast
  ultimately show False by contradiction
qed

lemma keys_distinct_remove_nth:
  assumes "keys_distinct env tbl" "i < length tbl"
  shows "keys_distinct env (remove_nth i tbl)"
  unfolding keys_distinct_def
proof (intro allI impI)
  fix a b
  assume a: "a < length (remove_nth i tbl)" and b: "b < length (remove_nth i tbl)" and ab: "a \<noteq> b"
  from a b assms(2) have la: "a < length tbl - 1" and lb: "b < length tbl - 1"
    by (simp_all add: length_remove_nth)
  let ?f = "\<lambda>j. if j < i then j else Suc j"
  have "?f a \<noteq> ?f b" using ab by auto
  moreover have "?f a < length tbl" "?f b < length tbl" using la lb by auto
  ultimately have "\<not> plugin_feature_equals env (target (reg_feature (tbl ! ?f a)))
      (target (reg_feature (tbl ! ?f b)))"
    using assms(1) unfolding keys_distinct_def by blast
  then show "\<not> plugin_feature_equals env (target (reg_feature (remove_nth i tbl ! a)))
      (target (reg_feature (remove_nth i tbl ! b)))"
    using nth_remove_nth[OF assms(2) la] nth_remove_nth[OF assms(2) lb] by auto
qed

lemma keys_distinct_update:
  assumes ok: "matcher_ok env" and kd: "keys_distinct env tbl" and i: "i < length tbl"
    and eq: "plugin_feature_equals env (target (reg_feature r)) (target (reg_feature (tbl ! i)))"
  shows "keys_distinct env (tbl[i := r])"
  unfolding keys_distinct_def
proof (intro allI impI)
  fix a b
  assume a: "a < length (tbl[i := r])" and b: "b < length (tbl[i := r])" and ab: "a \<noteq> b"
  then have la: "a < length tbl" and lb: "b < length tbl" by simp_all
  from kd la lb ab have old: "\<not> plugin_feature_equals env (target (reg_feature (tbl ! a)))
      (target (reg_feature (tbl ! b)))"
    unfolding keys_distinct_def by blast
  have sym: "\<And>x y. plugin_feature_equals env x y \<Longrightarrow> plugin_feature_equals env y x"
    and trans: "\<And>x y z. plugin_feature_equals env x y \<Longrightarrow> plugin_feature_equals env y z \<Longrightarrow>
       plugin_feature_equals env x z"
    using ok unfolding matcher_ok_def by blast+
  show "\<not> plugin_feature_equals env (target (reg_feature (tbl[i := r] ! a)))
      (target (reg_feature (tbl[i := r] ! b)))"
  proof (cases "a = i")
    case True
    with ab have bi: "b \<noteq> i" by simp
    show ?thesis
    proof
      assume "plugin_feature_equals env (target (reg_feature (tbl[i := r] ! a)))
        (target (reg_feature (tbl[i := r] ! b)))"
      with True bi i have "plugin_feature_equals env (target (reg_feature r)) (target (reg_feature (tbl ! b)))"
        by simp
      with eq have "plugin_feature_equals env (target (reg_feature (tbl ! i))) (target (reg_feature (tbl ! b)))"
        using sym trans by blast
      with old True show False by simp
    qed
  next
    case False
    show ?thesis
    proof (cases "b = i")
      case True
      show ?thesis
      proof
        assume "plugin_feature_equals env (target (reg_feature (tbl[i := r] ! a)))
          (target (reg_feature (tbl[i := r] ! b)))"
        with True False i have "plugin_feature_equals env (target (reg_feature (tbl ! a))) (target (reg_feature r))"
          by simp
        with eq have "plugin_feature_equals env (target (reg_feature (tbl ! a))) (target (reg_feature (tbl ! i)))"
          using trans by blast
        with old True show False by simp
      qed
    next
      case bF: False
      with False old show ?thesis by simp
    qed
  qed
qed

lemma registered_feature_update_conv:
  "r\<lparr>reg_plugins := x\<rparr> = \<lparr>reg_feature = reg_feature r, reg_plugins = x\<rparr>"
  by (cases r) simp

lemma unregister_feature_features:
  assumes "ht_get env (features s) (feature (provided_heap s p)) = Some i"
  shows "features (unregister_feature env p s) =
     (let r = features s ! i; remaining = removeAll p (reg_plugins r)
      in if remaining = [] then remove_nth i (features s)
         else (features s)[i := \<lparr>reg_feature =
                 (if ptr_eq (reg_feature r) (feature (provided_heap s p))
                  then feature (provided_heap s (hd remaining)) else reg_feature r),
               reg_plugins = remaining\<rparr>])"
  using assms
  by (simp add: unregister_feature_def ht_remove_def Let_def registered_feature_update_conv)

lemma unregister_feature_keys:
  assumes "matcher_ok env" and "keys_distinct env (features s)" and "providers_equal env s"
    and "ht_get env (features s) (feature (provided_heap s p)) = Some i"
  shows "(removeAll p (reg_plugins (features s ! i)) = [] \<longrightarrow>
            features (unregister_feature env p s) = remove_nth i (features s)) \<and>
         (removeAll p (reg_plugins (features s ! i)) \<noteq> [] \<longrightarrow>
            features (unregister_feature env p s) =
              (features s)[i := \<lparr>reg_feature =
                 (if ptr_eq (reg_feature (features s ! i)) (feature (provided_heap s p))
                  then feature (provided_heap s (hd (removeAll p (reg_plugins (features s ! i)))))
                  else reg_feature (features s ! i)),
               reg_plugins = removeAll p (reg_plugins (features s ! i))\<rparr>]) \<and>
         keys_distinct env (features (unregister_feature env p s))"
proof -
  let ?r = "features s ! i"
  let ?rem = "removeAll p (reg_plugins ?r)"
  from ht_get_Some[OF assms(4)] have i: "i < length (features s)" by simp
  have feats: "features (unregister_feature env p s) =
      (if ?rem = [] then remove_nth i (features s)
         else (features s)[i := \<lparr>reg_feature =
                 (if ptr_eq (reg_feature ?r) (feature (provided_heap s p))
                  then feature (provided_heap s (hd ?rem)) else reg_feature ?r),
               reg_plugins = ?rem\<rparr>])"
    using unregister_feature_features[OF assms(4)] by (simp add: Let_def)
  have refl: "\<And>x. plugin_feature_equals env x x"
    using assms(1) unfolding matcher_ok_def by blast
  have kd: "keys_distinct env (features (unregister_feature env p s))"
  proof (cases "?rem = []")
    case True
    with feats keys_distinct_remove_nth[OF assms(2) i] show ?thesis by simp
  next
    case False
    then have "hd ?rem \<in> set ?rem" by (rule hd_in_set)
    then have "hd ?rem \<in> set (reg_plugins ?r)" by simp
    moreover have "?r \<in> set (features s)" using i by simp
    ultimately have "plugin_feature_equals env (descriptor s (hd ?rem)) (target (reg_feature ?r))"
      using assms(3) unfolding providers_equal_def by blast
    then have "plugin_feature_equals env
        (target (if ptr_eq (reg_feature ?r) (feature (provided_heap s p))
                  then feature (provided_heap s (hd ?rem)) else reg_feature ?r))
        (target (reg_feature ?r))"
      using refl by (simp add: descriptor_def)
    from keys_distinct_update[OF assms(1,2) i, of "\<lparr>reg_feature =
                 (if ptr_eq (reg_feature ?r) (feature (provided_heap s p))
                  then feature (provided_heap s (hd ?rem)) else reg_feature ?r),
               reg_plugins = ?rem\<rparr>"] this False feats
    show ?thesis by simp
  qed
  from feats kd show ?thesis by simp
qed

lemma unregister_feature_fields [simp]:
  "plugins (unregister_feature env p s) = plugins s"
  "loaded_list (unregister_feature env p s) = loaded_list s"
  "paths (unregister_feature env p s) = paths s"
  "loaded_plugins_str (unregister_feature env p s) = loaded_plugins_str s"
  "stats_failed (unregister_feature env p s) = stats_failed s"
  "stats_depends (unregister_feature env p s) = stats_depends s"
  "stats_critical (unregister_feature env p s) = stats_critical s"
  "entry_heap (unregister_feature env p s) = entry_heap s"
  "provided_heap (unregister_feature env p s) = provided_heap s"
  "heap_top (unregister_feature env p s) = heap_top s"
  by (simp_all add: unregister_feature_def Let_def split: option.splits)

lemma descriptor_unregister_feature [simp]:
  "descriptor (unregister_feature env p s) q = descriptor s q"
  by (simp add: descriptor_def)

lemma provided_set_unregister_feature [simp]:
  "provided_set (unregister_feature env p s) = provided_set s"
  by (simp add: provided_set_def)

lemma not_registered_if_no_key:
  assumes "providers_equal env s"
    and "ht_get env (features s) (feature (provided_heap s p)) = None"
  shows "p \<notin> registered_set s"
proof
  assume "p \<in> registered_set s"
  then obtain r where r: "r \<in> set (features s)" "p \<in> set (reg_plugins r)"
    unfolding registered_set_def by blast
  with assms(1) have "plugin_feature_equals env (descriptor s p) (target (reg_feature r))"
    unfolding providers_equal_def by blast
  with assms(2) r(1) show False
    unfolding ht_get_None descriptor_def by blast
qed

lemma registered_only_at_key:
  assumes ok: "matcher_ok env" and kd: "keys_distinct env (features s)"
    and pe: "providers_equal env s"
    and g: "ht_get env (features s) (feature (provided_heap s p)) = Some i"
    and j: "j < length (features s)" and pj: "p \<in> set (reg_plugins (features s ! j))"
  shows "j = i"
proof -
  from ht_get_Some[OF g] have i: "i < length (features s)"
    and ei: "plugin_feature_equals env (descriptor s p) (target (reg_feature (features s ! i)))"
    by (simp_all add: descriptor_def)
  from j have "features s ! j \<in> set (features s)" by simp
  with pe pj have "plugin_feature_equals env (descriptor s p) (target (reg_feature (features s ! j)))"
    unfolding providers_equal_def by blast
  from keys_distinct_unique[OF ok kd j i this ei] show ?thesis .
qed

lemma unregister_feature_registry_inv:
  assumes ok: "matcher_ok env" and inv: "registry_inv env s"
  shows "registry_inv env (unregister_feature env p s) \<and>
         registered_set (unregister_feature env p s) \<subseteq> registered_set s - {p}"
proof (cases "ht_get env (features s) (feature (provided_heap s p))")
  case None
  then have same: "unregister_feature env p s = s"
    by (simp add: unregister_feature_def)
  from inv have "providers_equal env s" unfolding registry_inv_def by simp
  from not_registered_if_no_key[OF this None] inv same show ?thesis by auto
next
  case (Some i)
  let ?s' = "unregister_feature env p s"
  let ?tbl = "features s"
  let ?r = "?tbl ! i"
  let ?rem = "removeAll p (reg_plugins ?r)"
  from inv have kd: "keys_distinct env ?tbl" and pe: "providers_equal env s"
    and ne: "\<forall>r\<in>set ?tbl. reg_plugins r \<noteq> []"
    unfolding registry_inv_def by simp_all
  from ht_get_Some[OF Some] have i: "i < length ?tbl" by simp
  have sym: "\<And>x y. plugin_feature_equals env x y \<Longrightarrow> plugin_feature_equals env y x"
    and trans: "\<And>x y z. plugin_feature_equals env x y \<Longrightarrow> plugin_feature_equals env y z \<Longrightarrow>
       plugin_feature_equals env x z"
    using ok unfolding matcher_ok_def by blast+
  note C8 = unregister_feature_keys[OF ok kd pe Some]
  have others: "p \<notin> set (reg_plugins (?tbl ! j))" if "j < length ?tbl" "j \<noteq> i" for j
    using registered_only_at_key[OF ok kd pe Some that(1)] that(2) by blast
  show ?thesis
  proof (cases "?rem = []")
    case True
    with C8 have f: "features ?s' = remove_nth i ?tbl" by simp
    have sub: "set (remove_nth i ?tbl) \<subseteq> set ?tbl" by (rule set_remove_nth)
    have 1: "keys_distinct env (features ?s')" using C8 by simp
    have 2: "providers_equal env ?s'"
      using pe sub unfolding providers_equal_def f by auto
    have 3: "\<forall>r\<in>set (features ?s'). reg_plugins r \<noteq> []"
      using ne sub unfolding f by auto
    have 4: "registered_set ?s' \<subseteq> registered_set s - {p}"
    proof
      fix q assume "q \<in> registered_set ?s'"
      then obtain r where r: "r \<in> set (remove_nth i ?tbl)" "q \<in> set (reg_plugins r)"
        unfolding registered_set_def f by blast
      then obtain a where a: "a < length (remove_nth i ?tbl)" "r = remove_nth i ?tbl ! a"
        by (auto simp: in_set_conv_nth)
      with i have la: "a < length ?tbl - 1" by (simp add: length_remove_nth)
      let ?j = "if a < i then a else Suc a"
      have rj: "r = ?tbl ! ?j" using a(2) nth_remove_nth[OF i la] by simp
      have j: "?j < length ?tbl" "?j \<noteq> i" using la by auto
      from others[OF j] r(2) rj have "q \<noteq> p" by auto
      moreover from r sub have "q \<in> registered_set s" unfolding registered_set_def by blast
      ultimately show "q \<in> registered_set s - {p}" by simp
    qed
    from 1 2 3 4 show ?thesis unfolding registry_inv_def by simp
  next
    case False
    let ?k = "if ptr_eq (reg_feature ?r) (feature (provided_heap s p))
              then feature (provided_heap s (hd ?rem)) else reg_feature ?r"
    let ?r' = "\<lparr>reg_feature = ?k, reg_plugins = ?rem\<rparr>"
    from False C8 have f: "features ?s' = ?tbl[i := ?r']" by simp
    have rin: "?r \<in> set ?tbl" using i by simp
    have hd_in: "hd ?rem \<in> set (reg_plugins ?r)"
      using hd_in_set[OF False] by simp
    have key_eq: "plugin_feature_equals env (target ?k) (target (reg_feature ?r))"
    proof (cases "ptr_eq (reg_feature ?r) (feature (provided_heap s p))")
      case True
      from pe rin hd_in have "plugin_feature_equals env (descriptor s (hd ?rem)) (target (reg_feature ?r))"
        unfolding providers_equal_def by blast
      with True show ?thesis by (simp add: descriptor_def)
    next
      case False
      then show ?thesis using ok unfolding matcher_ok_def by simp
    qed
    have elems: "r = ?r' \<or> (r \<in> set ?tbl \<and> (\<exists>j<length ?tbl. j \<noteq> i \<and> r = ?tbl ! j))"
      if "r \<in> set (?tbl[i := ?r'])" for r
    proof -
      from that obtain a where a: "a < length ?tbl" "r = ?tbl[i := ?r'] ! a"
        by (auto simp: in_set_conv_nth)
      show ?thesis
      proof (cases "a = i")
        case True
        with a i show ?thesis by simp
      next
        case False
        with a show ?thesis by auto
      qed
    qed
    have 1: "keys_distinct env (features ?s')" using C8 by simp
    have 2: "providers_equal env ?s'"
      unfolding providers_equal_def f
    proof (intro ballI)
      fix r q assume r: "r \<in> set (?tbl[i := ?r'])" and q: "q \<in> set (reg_plugins r)"
      from elems[OF r] show "plugin_feature_equals env (descriptor ?s' q) (target (reg_feature r))"
      proof
        assume r': "r = ?r'"
        with q have "q \<in> set (reg_plugins ?r)" by simp
        with pe rin have "plugin_feature_equals env (descriptor s q) (target (reg_feature ?r))"
          unfolding providers_equal_def by blast
        with key_eq have "plugin_feature_equals env (descriptor s q) (target ?k)"
          using sym trans by blast
        with r' show ?thesis by simp
      next
        assume "r \<in> set ?tbl \<and> (\<exists>j<length ?tbl. j \<noteq> i \<and> r = ?tbl ! j)"
        with pe q show ?thesis unfolding providers_equal_def by auto
      qed
    qed
    have 3: "\<forall>r\<in>set (features ?s'). reg_plugins r \<noteq> []"
      unfolding f using elems ne False by fastforce
    have 4: "registered_set ?s' \<subseteq> registered_set s - {p}"
    proof
      fix q assume "q \<in> registered_set ?s'"
      then obtain r where r: "r \<in> set (?tbl[i := ?r'])" "q \<in> set (reg_plugins r)"
        unfolding registered_set_def f by blast
      from elems[OF r(1)] show "q \<in> registered_set s - {p}"
      proof
        assume "r = ?r'"
        with r(2) have "q \<in> set (reg_plugins ?r)" "q \<noteq> p" by simp_all
        with rin show ?thesis unfolding registered_set_def by blast
      next
        assume "r \<in> set ?tbl \<and> (\<exists>j<length ?tbl. j \<noteq> i \<and> r = ?tbl ! j)"
        then obtain j where j: "r \<in> set ?tbl" "j < length ?tbl" "j \<noteq> i" "r = ?tbl ! j" by blast
        from others[OF j(2,3)] r(2) j(4) have "q \<noteq> p" by auto
        with j(1) r(2) show ?thesis unfolding registered_set_def by blast
      qed
    qed
    from 1 2 3 4 show ?thesis unfolding registry_inv_def by simp
  qed
qed

text \<open>
  C8. When \<open>unregister_feature\<close> finds the registered feature of the removed
  provider, the registered feature is removed from the registry exactly when its
  provider list becomes empty; otherwise it keeps the remaining providers, and its key
  is re-pointed to the descriptor of the first remaining provider if the removed
  provider's descriptor was the key. Under the invariant of the registry (no two equal
  keys, providers equal to their key) no two registered features with equal keys exist
  afterwards.
\<close>

theorem unregister_feature_registry:
  assumes "matcher_ok env" and "keys_distinct env (features s)" and "providers_equal env s"
    and "ht_get env (features s) (feature (provided_heap s p)) = Some i"
  shows "(removeAll p (reg_plugins (features s ! i)) = [] \<longrightarrow>
            features (unregister_feature env p s) = remove_nth i (features s)) \<and>
         (removeAll p (reg_plugins (features s ! i)) \<noteq> [] \<longrightarrow>
            features (unregister_feature env p s) =
              (features s)[i := \<lparr>reg_feature =
                 (if ptr_eq (reg_feature (features s ! i)) (feature (provided_heap s p))
                  then feature (provided_heap s (hd (removeAll p (reg_plugins (features s ! i)))))
                  else reg_feature (features s ! i)),
               reg_plugins = removeAll p (reg_plugins (features s ! i))\<rparr>]) \<and>
         keys_distinct env (features (unregister_feature env p s))"
  using assms by (rule unregister_feature_keys)

subsection \<open>The invariant of the loader\<close>

lemma loader_invD:
  assumes "loader_inv env s"
  shows "registry_inv env s"
    and "registered_set s \<subseteq> provided_set s"
    and "\<And>e. e \<in> set (plugins s) \<Longrightarrow> e < heap_top s"
    and "\<And>p. p \<in> provided_set s \<Longrightarrow> p < heap_top s"
    and "\<And>e p. e \<in> set (plugins s) \<Longrightarrow> p \<in> set (entry_features (entry_heap s e)) \<Longrightarrow>
           entry (provided_heap s p) = e"
    and "\<And>p. p \<in> provided_set s \<Longrightarrow> \<not> loading (provided_heap s p)"
    and "dependencies_satisfied env s"
  using assms unfolding loader_inv_def resolver_inv_def by blast+

lemma loader_invI:
  assumes "registry_inv env s"
    and "registered_set s \<subseteq> provided_set s"
    and "\<And>e. e \<in> set (plugins s) \<Longrightarrow> e < heap_top s"
    and "\<And>p. p \<in> provided_set s \<Longrightarrow> p < heap_top s"
    and "\<And>e p. e \<in> set (plugins s) \<Longrightarrow> p \<in> set (entry_features (entry_heap s e)) \<Longrightarrow>
           entry (provided_heap s p) = e"
    and "\<And>p. p \<in> provided_set s \<Longrightarrow> \<not> loading (provided_heap s p)"
    and "dependencies_satisfied env s"
  shows "loader_inv env s"
  unfolding loader_inv_def resolver_inv_def
  apply (intro conjI ballI impI)
  using assms apply blast+
  done

lemma registry_inv_cong:
  "features s' = features s \<Longrightarrow> provided_heap s' = provided_heap s \<Longrightarrow>
   registry_inv env s' = registry_inv env s"
  by (simp add: registry_inv_def providers_equal_def descriptor_def)

lemma registered_set_cong: "features s' = features s \<Longrightarrow> registered_set s' = registered_set s"
  by (simp add: registered_set_def)

lemma unregister_list_fields [simp]:
  "plugins (unregister_list env ps s) = plugins s"
  "loaded_list (unregister_list env ps s) = loaded_list s"
  "paths (unregister_list env ps s) = paths s"
  "loaded_plugins_str (unregister_list env ps s) = loaded_plugins_str s"
  "stats_failed (unregister_list env ps s) = stats_failed s"
  "stats_depends (unregister_list env ps s) = stats_depends s"
  "stats_critical (unregister_list env ps s) = stats_critical s"
  "entry_heap (unregister_list env ps s) = entry_heap s"
  "provided_heap (unregister_list env ps s) = provided_heap s"
  "heap_top (unregister_list env ps s) = heap_top s"
  by (induction ps arbitrary: s; simp)+

lemma unregister_list_registry_inv:
  assumes "matcher_ok env" and "registry_inv env s"
  shows "registry_inv env (unregister_list env ps s) \<and>
         registered_set (unregister_list env ps s) \<subseteq> registered_set s - set ps"
  using assms(2)
proof (induction ps arbitrary: s)
  case Nil
  then show ?case by simp
next
  case (Cons p ps)
  from unregister_feature_registry_inv[OF assms(1) Cons.prems]
  have 1: "registry_inv env (unregister_feature env p s)"
    and 2: "registered_set (unregister_feature env p s) \<subseteq> registered_set s - {p}"
    by simp_all
  from Cons.IH[OF 1] 2 show ?case by auto
qed

lemma unregister_features_fields [simp]:
  "plugins (unregister_features env e s) = plugins s"
  "loaded_list (unregister_features env e s) = loaded_list s"
  "paths (unregister_features env e s) = paths s"
  "loaded_plugins_str (unregister_features env e s) = loaded_plugins_str s"
  "stats_failed (unregister_features env e s) = stats_failed s"
  "stats_depends (unregister_features env e s) = stats_depends s"
  "stats_critical (unregister_features env e s) = stats_critical s"
  "entry_heap (unregister_features env e s) =
     (entry_heap s)(e := (entry_heap s e)\<lparr>entry_features := []\<rparr>)"
  "provided_heap (unregister_features env e s) = provided_heap s"
  "heap_top (unregister_features env e s) = heap_top s"
  by (simp_all add: unregister_features_def)

lemma unregister_features_registry_inv:
  assumes "matcher_ok env" and "registry_inv env s"
  shows "registry_inv env (unregister_features env e s) \<and>
         registered_set (unregister_features env e s) \<subseteq>
           registered_set s - set (entry_features (entry_heap s e))"
proof -
  let ?s0 = "s\<lparr>entry_heap := (entry_heap s)(e := (entry_heap s e)\<lparr>entry_features := []\<rparr>)\<rparr>"
  have "registry_inv env ?s0" using assms(2) registry_inv_cong[of ?s0 s env] by simp
  from unregister_list_registry_inv[OF assms(1) this, of "entry_features (entry_heap s e)"]
  show ?thesis
    unfolding unregister_features_def using registered_set_cong[of ?s0 s] by simp
qed

lemma is_feature_loaded_unregister_features [simp]:
  "is_feature_loaded (unregister_features env e s) = is_feature_loaded s"
  by (rule ext) (simp add: is_feature_loaded_def)

lemma survives_unregister_features:
  assumes "\<not> survives s e"
  shows "survives (unregister_features env e s) e' = survives s e'"
  using assms by (auto simp: survives_def)

lemma purge_entries_spec:
  assumes "matcher_ok env" and "purge_entries env es s = (kept, s1)" and "registry_inv env s"
  shows "registry_inv env s1 \<and> kept = filter (survives s) es \<and>
     provided_heap s1 = provided_heap s \<and> plugins s1 = plugins s \<and>
     loaded_list s1 = loaded_list s \<and> paths s1 = paths s \<and>
     loaded_plugins_str s1 = loaded_plugins_str s \<and> heap_top s1 = heap_top s \<and>
     stats_failed s1 = stats_failed s \<and> stats_depends s1 = stats_depends s \<and>
     stats_critical s1 = stats_critical s \<and>
     (\<forall>e. survives s e \<longrightarrow> entry_heap s1 e = entry_heap s e) \<and>
     registered_set s1 \<subseteq> registered_set s -
        (\<Union>e\<in>{e \<in> set es. \<not> survives s e}. set (entry_features (entry_heap s e)))"
  using assms(2,3)
proof (induction es arbitrary: s kept)
  case Nil
  then show ?case by simp
next
  case (Cons e es)
  show ?case
  proof (cases "survives s e")
    case True
    with Cons.prems(1) obtain k where k: "purge_entries env es s = (k, s1)" "kept = e # k"
      by (auto simp: survives_def split: prod.splits if_splits)
    from Cons.IH[OF k(1) Cons.prems(2)] k(2) True show ?thesis by auto
  next
    case False
    let ?s' = "unregister_features env e s"
    from False Cons.prems(1) have k: "purge_entries env es ?s' = (kept, s1)"
      by (auto simp: survives_def split: if_splits)
    from unregister_features_registry_inv[OF assms(1) Cons.prems(2), of e]
    have ri: "registry_inv env ?s'"
      and rs: "registered_set ?s' \<subseteq> registered_set s - set (entry_features (entry_heap s e))"
      by simp_all
    note IH = Cons.IH[OF k ri]
    have sv: "\<And>e'. survives ?s' e' = survives s e'"
      using survives_unregister_features[OF False] by simp
    have ent: "entry_heap s1 e' = entry_heap s e'" if "survives s e'" for e'
    proof -
      from that False have "e' \<noteq> e" by auto
      moreover from IH that sv have "entry_heap s1 e' = entry_heap ?s' e'" by simp
      ultimately show ?thesis by simp
    qed
    have reg: "registered_set s1 \<subseteq> registered_set s -
        (\<Union>e\<in>{e' \<in> set (e # es). \<not> survives s e'}. set (entry_features (entry_heap s e)))"
    proof
      fix q assume q: "q \<in> registered_set s1"
      from IH have "registered_set s1 \<subseteq> registered_set ?s' -
        (\<Union>e\<in>{e \<in> set es. \<not> survives ?s' e}. set (entry_features (entry_heap ?s' e)))"
        by (elim conjE)
      with q have q1: "q \<in> registered_set ?s'"
        and q2: "\<forall>e'\<in>set es. \<not> survives ?s' e' \<longrightarrow> q \<notin> set (entry_features (entry_heap ?s' e'))"
        by blast+
      from q1 rs have q3: "q \<in> registered_set s" "q \<notin> set (entry_features (entry_heap s e))"
        by auto
      have "q \<notin> set (entry_features (entry_heap s e'))"
        if "e' \<in> set (e # es)" "\<not> survives s e'" for e'
      proof (cases "e' = e")
        case True
        with q3 show ?thesis by simp
      next
        case False
        with that have "e' \<in> set es" by simp
        with q2 that(2) sv have "q \<notin> set (entry_features (entry_heap ?s' e'))" by simp
        with False show ?thesis by simp
      qed
      with q3(1) show "q \<in> registered_set s -
        (\<Union>e\<in>{e' \<in> set (e # es). \<not> survives s e'}. set (entry_features (entry_heap s e)))"
        by blast
    qed
    from IH sv False ent reg show ?thesis by simp
  qed
qed

lemma purge_plugins_spec:
  assumes "matcher_ok env" and "registry_inv env s"
  shows "registry_inv env (purge_plugins env s) \<and>
     plugins (purge_plugins env s) = filter (survives s) (plugins s) \<and>
     provided_heap (purge_plugins env s) = provided_heap s \<and>
     loaded_list (purge_plugins env s) = loaded_list s \<and>
     paths (purge_plugins env s) = paths s \<and>
     loaded_plugins_str (purge_plugins env s) = loaded_plugins_str s \<and>
     heap_top (purge_plugins env s) = heap_top s \<and>
     stats_failed (purge_plugins env s) = stats_failed s \<and>
     stats_depends (purge_plugins env s) = stats_depends s \<and>
     stats_critical (purge_plugins env s) = stats_critical s \<and>
     (\<forall>e. survives s e \<longrightarrow> entry_heap (purge_plugins env s) e = entry_heap s e) \<and>
     registered_set (purge_plugins env s) \<subseteq> registered_set s -
        (\<Union>e\<in>{e \<in> set (plugins s). \<not> survives s e}. set (entry_features (entry_heap s e)))"
proof -
  obtain kept s1 where p: "purge_entries env (plugins s) s = (kept, s1)"
    by (cases "purge_entries env (plugins s) s")
  then have eq: "purge_plugins env s = s1\<lparr>plugins := kept\<rparr>"
    by (simp add: purge_plugins_def)
  note spec = purge_entries_spec[OF assms(1) p assms(2)]
  have "registry_inv env (s1\<lparr>plugins := kept\<rparr>)"
    using spec registry_inv_cong[of "s1\<lparr>plugins := kept\<rparr>" s1 env] by simp
  moreover have "registered_set (s1\<lparr>plugins := kept\<rparr>) = registered_set s1"
    by (rule registered_set_cong) simp
  ultimately show ?thesis unfolding eq using spec by simp
qed

lemma purge_plugins_inv:
  assumes ok: "matcher_ok env" and inv: "loader_inv env s"
  shows "loader_inv env (purge_plugins env s)"
proof -
  let ?s' = "purge_plugins env s"
  from inv have ri: "registry_inv env s" by (rule loader_invD)
  note spec = purge_plugins_spec[OF ok ri]
  from spec have pl: "plugins ?s' = filter (survives s) (plugins s)"
    and ph: "provided_heap ?s' = provided_heap s"
    and ht: "heap_top ?s' = heap_top s"
    and st: "stats_failed ?s' = stats_failed s" "stats_depends ?s' = stats_depends s"
            "stats_critical ?s' = stats_critical s"
    and eh: "\<And>e. survives s e \<Longrightarrow> entry_heap ?s' e = entry_heap s e"
    and rs: "registered_set ?s' \<subseteq> registered_set s -
        (\<Union>e\<in>{e \<in> set (plugins s). \<not> survives s e}. set (entry_features (entry_heap s e)))"
    by simp_all
  have ps: "provided_set ?s' =
      (\<Union>e\<in>{e \<in> set (plugins s). survives s e}. set (entry_features (entry_heap s e)))"
    unfolding provided_set_def pl using eh by auto
  then have sub: "provided_set ?s' \<subseteq> provided_set s"
    unfolding provided_set_def by auto
  have loaded_kept: "q \<in> provided_set ?s'"
    if "q \<in> provided_set s" "loaded (provided_heap s q)" for q
  proof -
    from that(1) obtain e where e: "e \<in> set (plugins s)" "q \<in> set (entry_features (entry_heap s e))"
      unfolding provided_set_def by blast
    with that(2) have "survives s e"
      unfolding survives_def list_ex_iff is_feature_loaded_def by blast
    with e show ?thesis unfolding ps by blast
  qed
  note D = loader_invD[OF inv]
  have 1: "registry_inv env ?s'" using spec by simp
  have 2: "registered_set ?s' \<subseteq> provided_set ?s'"
  proof
    fix q assume q: "q \<in> registered_set ?s'"
    with rs have a: "q \<in> registered_set s"
      and b: "\<forall>e\<in>set (plugins s). \<not> survives s e \<longrightarrow> q \<notin> set (entry_features (entry_heap s e))"
      by blast+
    from a D(2) have "q \<in> provided_set s" by blast
    then obtain e where e: "e \<in> set (plugins s)" "q \<in> set (entry_features (entry_heap s e))"
      unfolding provided_set_def by blast
    with b have "survives s e" by blast
    with e show "q \<in> provided_set ?s'" unfolding ps by blast
  qed
  have 3: "e < heap_top ?s'" if "e \<in> set (plugins ?s')" for e
    using that D(3) unfolding pl ht by simp
  have 4: "p < heap_top ?s'" if "p \<in> provided_set ?s'" for p
    using that D(4) sub unfolding ht by blast
  have 5: "entry (provided_heap ?s' p) = e"
    if "e \<in> set (plugins ?s')" "p \<in> set (entry_features (entry_heap ?s' e))" for e p
    using that D(5)[of e p] eh[of e] unfolding pl ph by simp
  have 6: "\<not> loading (provided_heap ?s' p)" if "p \<in> provided_set ?s'" for p
    using that D(6) sub unfolding ph by blast
  have 9: "dependencies_satisfied env ?s'"
    unfolding dependencies_satisfied_def
  proof (intro ballI impI)
    fix p d
    assume p: "p \<in> provided_set ?s'" and l: "loaded (provided_heap ?s' p)"
      and d: "d \<in> set (dependency_suffix (feature (provided_heap ?s' p)))"
      and k: "kind d = FEATURE_DEPENDS"
    from D(7) p sub l d k obtain q where q: "q \<in> provided_set s" "loaded (provided_heap s q)"
      "plugin_feature_matches env d (descriptor s q)"
      unfolding dependencies_satisfied_def ph by blast
    from loaded_kept[OF q(1,2)] q(2,3)
    show "\<exists>q\<in>provided_set ?s'. loaded (provided_heap ?s' q) \<and>
            plugin_feature_matches env d (descriptor ?s' q)"
      unfolding ph descriptor_def by blast
  qed
  show ?thesis by (rule loader_invI) (fact 1 2 3 4 5 6 9)+
qed

lemma unload_list_spec:
  assumes "matcher_ok env" and "registry_inv env s"
  shows "registry_inv env (unload_list env ps s) \<and>
     registered_set (unload_list env ps s) \<subseteq> registered_set s - set ps \<and>
     plugins (unload_list env ps s) = plugins s \<and>
     loaded_list (unload_list env ps s) = loaded_list s \<and>
     provided_heap (unload_list env ps s) = provided_heap s \<and>
     (\<forall>e. set (entry_features (entry_heap s e)) - set ps
            \<subseteq> set (entry_features (entry_heap (unload_list env ps s) e)))"
  using assms(2)
proof (induction ps arbitrary: s)
  case Nil
  then show ?case by simp
next
  case (Cons p ps)
  let ?e = "entry (provided_heap s p)"
  let ?s1 = "s\<lparr>entry_heap := (entry_heap s)
                    (?e := (entry_heap s ?e)
                       \<lparr>entry_features := removeAll p (entry_features (entry_heap s ?e))\<rparr>)\<rparr>"
  let ?s2 = "unregister_feature env p ?s1"
  have step: "unload_list env (p # ps) s = unload_list env ps ?s2"
    by (simp add: Let_def)
  have "registry_inv env ?s1"
    using Cons.prems registry_inv_cong[of ?s1 s env] by simp
  from unregister_feature_registry_inv[OF assms(1) this, of p]
  have ri: "registry_inv env ?s2"
    and rs: "registered_set ?s2 \<subseteq> registered_set s - {p}"
    using registered_set_cong[of ?s1 s] by simp_all
  note IH = Cons.IH[OF ri]
  have ent: "set (entry_features (entry_heap s e)) - set (p # ps)
            \<subseteq> set (entry_features (entry_heap (unload_list env ps ?s2) e))" for e
  proof -
    have "set (entry_features (entry_heap s e)) - {p} \<subseteq> set (entry_features (entry_heap ?s2 e))"
      by auto
    moreover from IH have "set (entry_features (entry_heap ?s2 e)) - set ps
            \<subseteq> set (entry_features (entry_heap (unload_list env ps ?s2) e))"
      by (elim conjE) blast
    ultimately show ?thesis by auto
  qed
  from IH have "registered_set (unload_list env ps ?s2) \<subseteq> registered_set ?s2 - set ps"
    by (elim conjE)
  with rs have reg: "registered_set (unload_list env ps ?s2) \<subseteq> registered_set s - set (p # ps)"
    by auto
  from IH ent reg show ?case unfolding step by simp
qed

lemma unload_entries_spec:
  assumes "matcher_ok env" and "registry_inv env s"
  shows "registry_inv env (unload_entries env es s) \<and>
     registered_set (unload_entries env es s) \<subseteq>
       registered_set s - (\<Union>e\<in>set es. set (entry_features (entry_heap s e))) \<and>
     plugins (unload_entries env es s) = plugins s \<and>
     loaded_list (unload_entries env es s) = loaded_list s"
  using assms(2)
proof (induction es arbitrary: s)
  case Nil
  then show ?case by simp
next
  case (Cons e es)
  define s1 where "s1 = (if leak_detective env
                then s\<lparr>entry_heap := (entry_heap s)(e := (entry_heap s e)\<lparr>handle := None\<rparr>)\<rparr>
                else s)"
  define s2 where "s2 = unregister_features env e s1"
  have step: "unload_entries env (e # es) s = unload_entries env es s2"
    by (simp add: Let_def s1_def s2_def)
  have f1: "features s1 = features s" "provided_heap s1 = provided_heap s"
    "plugins s1 = plugins s" "loaded_list s1 = loaded_list s"
    and e1: "\<And>e'. entry_features (entry_heap s1 e') = entry_features (entry_heap s e')"
    by (simp_all add: s1_def)
  have "registry_inv env s1"
    using Cons.prems registry_inv_cong[OF f1(1,2), of env] by simp
  note UF = unregister_features_registry_inv[OF assms(1) this, of e, folded s2_def]
  have ri: "registry_inv env s2" using UF by (rule conjunct1)
  have rs: "registered_set s2 \<subseteq> registered_set s - set (entry_features (entry_heap s e))"
    using UF[THEN conjunct2] registered_set_cong[OF f1(1)] e1 by simp
  note IH = Cons.IH[OF ri]
  have feats: "entry_features (entry_heap s2 e') = entry_features (entry_heap s e')"
    if "e' \<noteq> e" for e'
    using that e1 by (simp add: s2_def)
  have pl2: "plugins s2 = plugins s" "loaded_list s2 = loaded_list s"
    using f1 by (simp_all add: s2_def)
  note r2 = IH[THEN conjunct2, THEN conjunct1]
  have reg: "registered_set (unload_entries env es s2) \<subseteq>
       registered_set s - (\<Union>e\<in>set (e # es). set (entry_features (entry_heap s e)))"
  proof
    fix q assume "q \<in> registered_set (unload_entries env es s2)"
    with r2 have a: "q \<in> registered_set s2"
      and b: "\<And>e'. e' \<in> set es \<Longrightarrow> q \<notin> set (entry_features (entry_heap s2 e'))"
      by blast+
    from a rs have c: "q \<in> registered_set s" "q \<notin> set (entry_features (entry_heap s e))"
      by blast+
    have "q \<notin> set (entry_features (entry_heap s e'))" if "e' \<in> set (e # es)" for e'
    proof (cases "e' = e")
      case True
      with c show ?thesis by simp
    next
      case False
      with that have "e' \<in> set es" by simp
      from b[OF this] feats[OF False] show ?thesis by simp
    qed
    with c(1) show "q \<in> registered_set s - (\<Union>e\<in>set (e # es). set (entry_features (entry_heap s e)))"
      by blast
  qed
  show ?case
    unfolding step
    using IH[THEN conjunct1] reg IH[THEN conjunct2, THEN conjunct2] pl2
    by (intro conjI) simp_all
qed

lemma registered_set_empty:
  assumes "\<forall>r\<in>set (features s). reg_plugins r \<noteq> []" and "registered_set s = {}"
  shows "features s = []"
proof (rule ccontr)
  assume "features s \<noteq> []"
  then obtain r where r: "r \<in> set (features s)" by (cases "features s") auto
  with assms(1) obtain q where "q \<in> set (reg_plugins r)" by (cases "reg_plugins r") auto
  with r assms(2) show False unfolding registered_set_def by blast
qed

lemma unload_spec:
  assumes ok: "matcher_ok env" and ri: "registry_inv env s"
    and sub: "registered_set s \<subseteq> provided_set s"
  shows "plugins (unload env s) = [] \<and> loaded_list (unload env s) = [] \<and>
     features (unload env s) = [] \<and> stats_failed (unload env s) = 0 \<and>
     stats_depends (unload env s) = 0 \<and> stats_critical (unload env s) = 0 \<and>
     loaded_plugins_str (unload env s) = None"
proof -
  define s0 where "s0 = s\<lparr>loaded_list := []\<rparr>"
  define s1 where "s1 = unload_list env (loaded_list s) s0"
  have s1: "unload_features env s = s1"
    by (simp add: unload_features_def s1_def s0_def)
  have f0: "features s0 = features s" "provided_heap s0 = provided_heap s"
    "plugins s0 = plugins s" "entry_heap s0 = entry_heap s" "loaded_list s0 = []"
    by (simp_all add: s0_def)
  have ri0: "registry_inv env s0" using ri registry_inv_cong[OF f0(1,2), of env] by simp
  note U = unload_list_spec[OF ok ri0, of "loaded_list s", folded s1_def]
  have ri1: "registry_inv env s1" using U by (rule conjunct1)
  have rs1: "registered_set s1 \<subseteq> registered_set s - set (loaded_list s)"
    using U[THEN conjunct2, THEN conjunct1] registered_set_cong[OF f0(1)] by simp
  have pl1: "plugins s1 = plugins s"
    using U[THEN conjunct2, THEN conjunct2, THEN conjunct1] f0 by simp
  have ll1: "loaded_list s1 = []"
    using U[THEN conjunct2, THEN conjunct2, THEN conjunct2, THEN conjunct1] f0 by simp
  have en1: "set (entry_features (entry_heap s e)) - set (loaded_list s)
            \<subseteq> set (entry_features (entry_heap s1 e))" for e
    using U[THEN conjunct2, THEN conjunct2, THEN conjunct2, THEN conjunct2, THEN conjunct2]
      f0(4) by simp
  have sub1: "registered_set s1 \<subseteq> provided_set s1"
  proof
    fix q assume "q \<in> registered_set s1"
    with rs1 have a: "q \<in> registered_set s" "q \<notin> set (loaded_list s)" by blast+
    with sub obtain e where e: "e \<in> set (plugins s)" "q \<in> set (entry_features (entry_heap s e))"
      unfolding provided_set_def by blast
    from e(2) a(2) have "q \<in> set (entry_features (entry_heap s e)) - set (loaded_list s)"
      by simp
    with en1[of e] have "q \<in> set (entry_features (entry_heap s1 e))" by (rule subsetD)
    moreover from e(1) pl1 have "e \<in> set (plugins s1)" by simp
    ultimately show "q \<in> provided_set s1"
      unfolding provided_set_def by (rule UN_I[rotated])
  qed
  define s1' where "s1' = s1\<lparr>plugins := []\<rparr>"
  define s2 where "s2 = unload_entries env (rev (plugins s1)) s1'"
  have f1: "features s1' = features s1" "provided_heap s1' = provided_heap s1"
    "plugins s1' = []" "entry_heap s1' = entry_heap s1" "loaded_list s1' = loaded_list s1"
    by (simp_all add: s1'_def)
  have ri1': "registry_inv env s1'" using ri1 registry_inv_cong[OF f1(1,2), of env] by simp
  note E = unload_entries_spec[OF ok ri1', of "rev (plugins s1)", folded s2_def]
  have ri2: "registry_inv env s2" using E by (rule conjunct1)
  have pl2: "plugins s2 = []" using E[THEN conjunct2, THEN conjunct2, THEN conjunct1] f1 by simp
  have ll2: "loaded_list s2 = []"
    using E[THEN conjunct2, THEN conjunct2, THEN conjunct2] f1 ll1 by simp
  have "registered_set s2 \<subseteq> registered_set s1 - provided_set s1"
    using E[THEN conjunct2, THEN conjunct1] registered_set_cong[OF f1(1)] f1(4)
    unfolding provided_set_def by simp
  with sub1 have "registered_set s2 = {}" by blast
  moreover from ri2 have "\<forall>r\<in>set (features s2). reg_plugins r \<noteq> []"
    unfolding registry_inv_def by simp
  ultimately have f2: "features s2 = []" by (rule registered_set_empty[rotated])
  have u: "unload env s = s2\<lparr>loaded_plugins_str := None,
            stats_failed := 0, stats_depends := 0, stats_critical := 0\<rparr>"
    by (simp add: unload_def Let_def s1 s2_def s1'_def)
  show ?thesis unfolding u using pl2 ll2 f2 by simp
qed

lemma loader_inv_empty:
  assumes "plugins s = []" "features s = []"
  shows "loader_inv env s"
  using assms
  by (simp add: loader_inv_def resolver_inv_def registry_inv_def keys_distinct_def
        providers_equal_def registered_set_def provided_set_def dependencies_satisfied_def)

lemma unload_inv:
  assumes "matcher_ok env" and "loader_inv env s"
  shows "loader_inv env (unload env s)"
  using unload_spec[OF assms(1) loader_invD(1,2)[OF assms(2)]]
  by (intro loader_inv_empty) simp_all

lemma register_provide_fields:
  "plugins (register_provide env e fp rg s) = plugins s"
  "loaded_list (register_provide env e fp rg s) = loaded_list s"
  "paths (register_provide env e fp rg s) = paths s"
  "loaded_plugins_str (register_provide env e fp rg s) = loaded_plugins_str s"
  "stats_failed (register_provide env e fp rg s) = stats_failed s"
  "stats_depends (register_provide env e fp rg s) = stats_depends s"
  "stats_critical (register_provide env e fp rg s) = stats_critical s"
  "heap_top (register_provide env e fp rg s) = Suc (heap_top s)"
  "provided_heap (register_provide env e fp rg s) =
     (provided_heap s)(heap_top s := \<lparr>entry = e, reg = rg, feature = fp,
                              loading = False, loaded = False, failed = False\<rparr>)"
  "entry_heap (register_provide env e fp rg s) =
     (entry_heap s)(e := (entry_heap s e)
        \<lparr>entry_features := entry_features (entry_heap s e) @ [heap_top s]\<rparr>)"
  "features (register_provide env e fp rg s) =
     (case ht_get env (features s) fp of
        None \<Rightarrow> features s @ [\<lparr>reg_feature = fp, reg_plugins = [heap_top s]\<rparr>]
      | Some i \<Rightarrow> (features s)[i := \<lparr>reg_feature = reg_feature (features s ! i),
                                     reg_plugins = reg_plugins (features s ! i) @ [heap_top s]\<rparr>])"
  by (simp_all add: register_provide_def alloc_def ht_put_def Let_def
        registered_feature_update_conv split: option.splits prod.splits)

lemma keys_distinct_append:
  assumes ok: "matcher_ok env" and kd: "keys_distinct env tbl"
    and new: "\<forall>r\<in>set tbl. \<not> plugin_feature_equals env (target (reg_feature x)) (target (reg_feature r))"
  shows "keys_distinct env (tbl @ [x])"
  unfolding keys_distinct_def
proof (intro allI impI)
  fix a b
  assume a: "a < length (tbl @ [x])" and b: "b < length (tbl @ [x])" and ab: "a \<noteq> b"
  have sym: "\<And>u v. plugin_feature_equals env u v \<Longrightarrow> plugin_feature_equals env v u"
    using ok unfolding matcher_ok_def by blast
  consider "a < length tbl" "b < length tbl" | "a = length tbl" "b < length tbl"
    | "a < length tbl" "b = length tbl"
    using a b ab by (auto simp: less_Suc_eq)
  then show "\<not> plugin_feature_equals env (target (reg_feature ((tbl @ [x]) ! a)))
      (target (reg_feature ((tbl @ [x]) ! b)))"
  proof cases
    case 1
    with kd ab show ?thesis unfolding keys_distinct_def by (simp add: nth_append)
  next
    case 2
    then have "tbl ! b \<in> set tbl" by simp
    with new 2 show ?thesis by (simp add: nth_append)
  next
    case 3
    then have "tbl ! a \<in> set tbl" by simp
    with new have "\<not> plugin_feature_equals env (target (reg_feature x)) (target (reg_feature (tbl ! a)))"
      by blast
    with sym have "\<not> plugin_feature_equals env (target (reg_feature (tbl ! a))) (target (reg_feature x))"
      by blast
    with 3 show ?thesis by (simp add: nth_append)
  qed
qed

lemma in_set_update_cases:
  assumes "r \<in> set (tbl[i := x])"
  shows "r = x \<or> r \<in> set tbl"
  using assms set_update_subset_insert[of tbl i x] by auto

lemma register_provide_inv:
  assumes ok: "matcher_ok env" and inv: "loader_inv env s" and e: "e \<in> set (plugins s)"
  shows "loader_inv env (register_provide env e fp rg s)"
proof -
  let ?s' = "register_provide env e fp rg s"
  let ?p = "heap_top s"
  note D = loader_invD[OF inv]
  note F = register_provide_fields[of env e fp rg s]
  from D(1) have kd: "keys_distinct env (features s)" and pe: "providers_equal env s"
    and ne: "\<forall>r\<in>set (features s). reg_plugins r \<noteq> []"
    unfolding registry_inv_def by simp_all
  have refl: "\<And>x. plugin_feature_equals env x x"
    using ok unfolding matcher_ok_def by blast
  have fresh: "?p \<notin> provided_set s" using D(4)[of ?p] by auto
  then have fresh_reg: "?p \<notin> registered_set s" using D(2) by blast
  have desc: "descriptor ?s' q = descriptor s q" if "q \<noteq> ?p" for q
    using that by (simp add: descriptor_def F)
  have desc_new: "descriptor ?s' ?p = target fp"
    by (simp add: descriptor_def F)
  have old_reg: "q \<noteq> ?p" if "r \<in> set (features s)" "q \<in> set (reg_plugins r)" for r q
    using that fresh_reg unfolding registered_set_def by blast
  have ef: "entry_features (entry_heap ?s' e') =
      (if e' = e then entry_features (entry_heap s e) @ [?p] else entry_features (entry_heap s e'))"
    for e'
    by (simp add: F)
  have ps: "provided_set ?s' = insert ?p (provided_set s)"
    unfolding provided_set_def F(1) using e by (auto simp: ef split: if_splits)
  have flags: "loading (provided_heap ?s' q) = (q \<noteq> ?p \<and> loading (provided_heap s q))"
    "loaded (provided_heap ?s' q) = (q \<noteq> ?p \<and> loaded (provided_heap s q))"
    "failed (provided_heap ?s' q) = (q \<noteq> ?p \<and> failed (provided_heap s q))"
    "q \<noteq> ?p \<Longrightarrow> entry (provided_heap ?s' q) = entry (provided_heap s q)"
    "q \<noteq> ?p \<Longrightarrow> feature (provided_heap ?s' q) = feature (provided_heap s q)"
    "entry (provided_heap ?s' ?p) = e"
    for q
    by (simp_all add: F)
  have reg: "registry_inv env ?s' \<and> registered_set ?s' \<subseteq> insert ?p (registered_set s)"
  proof (cases "ht_get env (features s) fp")
    case None
    let ?x = "\<lparr>reg_feature = fp, reg_plugins = [?p]\<rparr>"
    from None have f: "features ?s' = features s @ [?x]" by (simp add: F)
    from None have "\<forall>r\<in>set (features s). \<not> plugin_feature_equals env (target (reg_feature ?x)) (target (reg_feature r))"
      unfolding ht_get_None by simp
    from keys_distinct_append[OF ok kd this] have 1: "keys_distinct env (features ?s')"
      unfolding f .
    have 2: "providers_equal env ?s'"
      unfolding providers_equal_def f
    proof (intro ballI)
      fix r q assume r: "r \<in> set (features s @ [?x])" and q: "q \<in> set (reg_plugins r)"
      show "plugin_feature_equals env (descriptor ?s' q) (target (reg_feature r))"
      proof (cases "r = ?x")
        case True
        with q have "q = ?p" by simp
        with True desc_new refl show ?thesis by simp
      next
        case False
        with r have r': "r \<in> set (features s)" by simp
        from old_reg[OF r' q] desc have "descriptor ?s' q = descriptor s q" by simp
        with pe r' q show ?thesis unfolding providers_equal_def by simp
      qed
    qed
    have 3: "\<forall>r\<in>set (features ?s'). reg_plugins r \<noteq> []"
      unfolding f using ne by auto
    have 4: "registered_set ?s' \<subseteq> insert ?p (registered_set s)"
      unfolding registered_set_def f by auto
    from 1 2 3 4 show ?thesis unfolding registry_inv_def by simp
  next
    case (Some i)
    let ?r = "features s ! i"
    let ?x = "\<lparr>reg_feature = reg_feature ?r, reg_plugins = reg_plugins ?r @ [?p]\<rparr>"
    from Some have f: "features ?s' = (features s)[i := ?x]" by (simp add: F)
    from ht_get_Some[OF Some] have i: "i < length (features s)"
      and eq: "plugin_feature_equals env (target fp) (target (reg_feature ?r))"
      by simp_all
    have rin: "?r \<in> set (features s)" using i by simp
    have "plugin_feature_equals env (target (reg_feature ?x)) (target (reg_feature ?r))"
      using refl by simp
    from keys_distinct_update[OF ok kd i this] have 1: "keys_distinct env (features ?s')"
      unfolding f .
    have 2: "providers_equal env ?s'"
      unfolding providers_equal_def f
    proof (intro ballI)
      fix r q assume r: "r \<in> set ((features s)[i := ?x])" and q: "q \<in> set (reg_plugins r)"
      from in_set_update_cases[OF r]
      show "plugin_feature_equals env (descriptor ?s' q) (target (reg_feature r))"
      proof
        assume rx: "r = ?x"
        show ?thesis
        proof (cases "q = ?p")
          case True
          with rx desc_new eq show ?thesis by simp
        next
          case False
          with q rx have q': "q \<in> set (reg_plugins ?r)" by simp
          with pe rin have "plugin_feature_equals env (descriptor s q) (target (reg_feature ?r))"
            unfolding providers_equal_def by blast
          with desc[OF False] rx show ?thesis by simp
        qed
      next
        assume r': "r \<in> set (features s)"
        from old_reg[OF r' q] desc have "descriptor ?s' q = descriptor s q" by simp
        with pe r' q show ?thesis unfolding providers_equal_def by simp
      qed
    qed
    have 3: "\<forall>r\<in>set (features ?s'). reg_plugins r \<noteq> []"
      unfolding f using ne in_set_update_cases[of _ "features s" i ?x] by fastforce
    have 4: "registered_set ?s' \<subseteq> insert ?p (registered_set s)"
    proof
      fix q assume "q \<in> registered_set ?s'"
      then obtain r where r: "r \<in> set ((features s)[i := ?x])" "q \<in> set (reg_plugins r)"
        unfolding registered_set_def f by blast
      from in_set_update_cases[OF r(1)] show "q \<in> insert ?p (registered_set s)"
      proof
        assume "r = ?x"
        with r(2) rin show ?thesis unfolding registered_set_def by auto
      next
        assume "r \<in> set (features s)"
        with r(2) show ?thesis unfolding registered_set_def by auto
      qed
    qed
    from 1 2 3 4 show ?thesis unfolding registry_inv_def by simp
  qed
  show ?thesis
  proof (rule loader_invI)
    show "registry_inv env ?s'" using reg by simp
    show "registered_set ?s' \<subseteq> provided_set ?s'" using reg D(2) unfolding ps by blast
    show "e' < heap_top ?s'" if "e' \<in> set (plugins ?s')" for e'
      using that D(3)[of e'] by (simp add: F)
    show "q < heap_top ?s'" if "q \<in> provided_set ?s'" for q
      using that D(4)[of q] unfolding ps by (auto simp: F)
    show "entry (provided_heap ?s' q) = e'"
      if "e' \<in> set (plugins ?s')" "q \<in> set (entry_features (entry_heap ?s' e'))" for e' q
    proof (cases "q = ?p")
      case True
      have "e' = e"
      proof (rule ccontr)
        assume "e' \<noteq> e"
        with that True have "?p \<in> provided_set s"
          unfolding provided_set_def by (auto simp: ef F(1))
        with fresh show False by simp
      qed
      with True flags(6) show ?thesis by simp
    next
      case False
      with that have "e' \<in> set (plugins s)" "q \<in> set (entry_features (entry_heap s e'))"
        by (auto simp: ef F(1) split: if_splits)
      from D(5)[OF this] flags(4)[OF False] show ?thesis by simp
    qed
    show "\<not> loading (provided_heap ?s' q)" if "q \<in> provided_set ?s'" for q
      using that D(6)[of q] unfolding ps flags by auto
    show "dependencies_satisfied env ?s'"
      unfolding dependencies_satisfied_def
    proof (intro ballI impI)
      fix q d
      assume q: "q \<in> provided_set ?s'" and l: "loaded (provided_heap ?s' q)"
        and d: "d \<in> set (dependency_suffix (feature (provided_heap ?s' q)))"
        and k: "kind d = FEATURE_DEPENDS"
      from l have qp: "q \<noteq> ?p" "loaded (provided_heap s q)" unfolding flags by simp_all
      with q have q': "q \<in> provided_set s" unfolding ps by simp
      from d flags(5)[OF qp(1)] have d': "d \<in> set (dependency_suffix (feature (provided_heap s q)))"
        by simp
      from D(7) q' qp(2) d' k obtain w where w: "w \<in> provided_set s" "loaded (provided_heap s w)"
        "plugin_feature_matches env d (descriptor s w)"
        unfolding dependencies_satisfied_def by blast
      from w(1) fresh have wp: "w \<noteq> ?p" by auto
      with w desc[OF wp] show "\<exists>w\<in>provided_set ?s'. loaded (provided_heap ?s' w) \<and>
            plugin_feature_matches env d (descriptor ?s' w)"
        unfolding ps flags by auto
    qed
  qed
qed

lemma register_cells_inv:
  assumes ok: "matcher_ok env"
  shows "loader_inv env s \<Longrightarrow> e \<in> set (plugins s) \<Longrightarrow>
         loader_inv env (register_cells env e b i rg cells s)"
proof (induction cells arbitrary: i rg s)
  case Nil
  then show ?case by simp
next
  case (Cons f fs)
  show ?case
  proof (cases "kind f")
    case FEATURE_PROVIDE
    let ?s1 = "register_provide env e \<lparr>block = b, off = i, target = f, rest = fs\<rparr> rg s"
    have "loader_inv env ?s1" by (rule register_provide_inv[OF ok Cons.prems])
    moreover have "e \<in> set (plugins ?s1)" using Cons.prems(2) by (simp add: register_provide_fields)
    ultimately show ?thesis using Cons.IH FEATURE_PROVIDE by simp
  qed (use Cons in simp_all)
qed

lemma register_cells_fields:
  "plugins (register_cells env e b i rg cells s) = plugins s \<and>
   loaded_list (register_cells env e b i rg cells s) = loaded_list s \<and>
   paths (register_cells env e b i rg cells s) = paths s \<and>
   loaded_plugins_str (register_cells env e b i rg cells s) = loaded_plugins_str s \<and>
   stats_failed (register_cells env e b i rg cells s) = stats_failed s \<and>
   stats_depends (register_cells env e b i rg cells s) = stats_depends s \<and>
   stats_critical (register_cells env e b i rg cells s) = stats_critical s \<and>
   (\<forall>e'. plugin (entry_heap (register_cells env e b i rg cells s) e') = plugin (entry_heap s e') \<and>
         critical (entry_heap (register_cells env e b i rg cells s) e') = critical (entry_heap s e'))"
proof (induction cells arbitrary: i rg s)
  case Nil
  then show ?case by simp
next
  case (Cons f fs)
  show ?case
    by (cases "kind f") (simp_all add: Cons register_provide_fields)
qed

lemma register_features_inv:
  assumes "matcher_ok env" "loader_inv env s" "e \<in> set (plugins s)"
  shows "loader_inv env (register_features env e s)"
  using assms
  by (auto simp: register_features_def intro: register_cells_inv split: option.splits)

lemma register_features_fields:
  "plugins (register_features env e s) = plugins s \<and>
   loaded_list (register_features env e s) = loaded_list s \<and>
   paths (register_features env e s) = paths s \<and>
   loaded_plugins_str (register_features env e s) = loaded_plugins_str s \<and>
   stats_failed (register_features env e s) = stats_failed s \<and>
   stats_depends (register_features env e s) = stats_depends s \<and>
   stats_critical (register_features env e s) = stats_critical s \<and>
   (\<forall>e'. plugin (entry_heap (register_features env e s) e') = plugin (entry_heap s e') \<and>
         critical (entry_heap (register_features env e s) e') = critical (entry_heap s e'))"
  using register_cells_fields[of env e _ 0 None _ s]
  by (auto simp: register_features_def split: option.splits)

lemma loader_inv_new_entry:
  assumes inv: "loader_inv env s"
    and pl: "plugins s' = plugins s @ [e]"
    and e: "heap_top s \<le> e" "e < heap_top s'"
    and f: "features s' = features s" "provided_heap s' = provided_heap s"
    and st: "stats_failed s' = stats_failed s" "stats_depends s' = stats_depends s"
       "stats_critical s' = stats_critical s"
    and eh: "\<And>e'. e' \<noteq> e \<Longrightarrow> entry_heap s' e' = entry_heap s e'"
    and ef: "entry_features (entry_heap s' e) = []"
  shows "loader_inv env s'"
proof -
  note D = loader_invD[OF inv]
  have ne: "e' \<noteq> e" if "e' \<in> set (plugins s)" for e'
    using D(3)[OF that] e(1) by simp
  have ps: "provided_set s' = provided_set s"
    unfolding provided_set_def pl using ne eh ef by auto
  have top: "heap_top s \<le> heap_top s'" using e by simp
  show ?thesis
  proof (rule loader_invI)
    show "registry_inv env s'" using D(1) registry_inv_cong[OF f, of env] by simp
    show "registered_set s' \<subseteq> provided_set s'"
      using D(2) registered_set_cong[OF f(1)] ps by simp
    show "e' < heap_top s'" if "e' \<in> set (plugins s')" for e'
      using that D(3)[of e'] e top unfolding pl by auto
    show "p < heap_top s'" if "p \<in> provided_set s'" for p
      using that D(4)[of p] top unfolding ps by auto
    show "entry (provided_heap s' p) = e'"
      if "e' \<in> set (plugins s')" "p \<in> set (entry_features (entry_heap s' e'))" for e' p
    proof (cases "e' = e")
      case True
      with that ef show ?thesis by simp
    next
      case False
      with that pl have "e' \<in> set (plugins s)" by simp
      with that(2) eh[OF False] D(5)[of e' p] f show ?thesis by simp
    qed
    show "\<not> loading (provided_heap s' p)" if "p \<in> provided_set s'" for p
      using that D(6)[of p] unfolding ps f by simp
    show "dependencies_satisfied env s'"
      using D(7) unfolding dependencies_satisfied_def ps f descriptor_def by simp
  qed
qed

lemma create_plugin_Inr:
  assumes "create_plugin env hdl name integ crit s = Inr (e, s1)"
  shows "e = heap_top s \<and> heap_top s1 = Suc (heap_top s) \<and> plugins s1 = plugins s \<and>
     features s1 = features s \<and> provided_heap s1 = provided_heap s \<and>
     loaded_list s1 = loaded_list s \<and> paths s1 = paths s \<and>
     loaded_plugins_str s1 = loaded_plugins_str s \<and>
     stats_failed s1 = stats_failed s \<and> stats_depends s1 = stats_depends s \<and>
     stats_critical s1 = stats_critical s \<and>
     (\<forall>e'. e' \<noteq> e \<longrightarrow> entry_heap s1 e' = entry_heap s e') \<and>
     entry_features (entry_heap s1 e) = [] \<and> critical (entry_heap s1 e) = crit \<and>
     dlsym env hdl (translate (name @ ''_plugin_create'')) = Some (Some (plugin (entry_heap s1 e)))"
  using assms
  by (auto simp: create_plugin_def alloc_def Let_def split: if_splits option.splits)

lemma load_plugin_cases:
  assumes "load_plugin env name file crit s = (r, s')"
  shows "(r = None \<and> s' = s) \<or>
     (\<exists>e. r = Some e \<and> e = heap_top s \<and> heap_top s' = Suc (heap_top s) \<and>
        plugins s' = plugins s @ [e] \<and>
        features s' = features s \<and> provided_heap s' = provided_heap s \<and>
        loaded_list s' = loaded_list s \<and> paths s' = paths s \<and>
        loaded_plugins_str s' = loaded_plugins_str s \<and>
        stats_failed s' = stats_failed s \<and> stats_depends s' = stats_depends s \<and>
        stats_critical s' = stats_critical s \<and>
        (\<forall>e'. e' \<noteq> e \<longrightarrow> entry_heap s' e' = entry_heap s e') \<and>
        entry_features (entry_heap s' e) = [] \<and> critical (entry_heap s' e) = crit)"
proof (cases "create_plugin env None name False crit s")
  case (Inr x)
  obtain e s1 where x: "x = (e, s1)" by (cases x)
  from create_plugin_Inr[OF Inr[unfolded x]] assms Inr x show ?thesis
    by (auto simp: load_plugin_def)
next
  case (Inl st)
  show ?thesis
  proof (cases "\<exists>f h e s1. file = Some f \<and> dlopen env f = Some h \<and>
                  create_plugin env (Some h) name True crit s = Inr (e, s1)")
    case True
    then obtain f h e s1 where t: "file = Some f" "dlopen env f = Some h"
      "create_plugin env (Some h) name True crit s = Inr (e, s1)" by blast
    from assms Inl t have "(r = None \<and> s' = s) \<or> (r = Some e \<and>
         s' = s1\<lparr>entry_heap := (entry_heap s1)(e := (entry_heap s1 e)\<lparr>handle := Some h\<rparr>),
                 plugins := plugins s1 @ [e]\<rparr>)"
      by (auto simp: load_plugin_def split: status_t.splits if_splits option.splits)
    with create_plugin_Inr[OF t(3)] show ?thesis by auto
  next
    case False
    with assms Inl have "r = None \<and> s' = s"
      by (auto simp: load_plugin_def split: status_t.splits if_splits option.splits sum.splits)
    then show ?thesis by simp
  qed
qed

lemma load_plugin_inv:
  assumes "loader_inv env s" and "load_plugin env name file crit s = (r, s')"
  shows "loader_inv env s' \<and> (\<forall>e. r = Some e \<longrightarrow> e \<in> set (plugins s'))"
  using load_plugin_cases[OF assms(2)]
proof
  assume "r = None \<and> s' = s"
  with assms(1) show ?thesis by simp
next
  assume "\<exists>e. r = Some e \<and> e = heap_top s \<and> heap_top s' = Suc (heap_top s) \<and>
        plugins s' = plugins s @ [e] \<and>
        features s' = features s \<and> provided_heap s' = provided_heap s \<and>
        loaded_list s' = loaded_list s \<and> paths s' = paths s \<and>
        loaded_plugins_str s' = loaded_plugins_str s \<and>
        stats_failed s' = stats_failed s \<and> stats_depends s' = stats_depends s \<and>
        stats_critical s' = stats_critical s \<and>
        (\<forall>e'. e' \<noteq> e \<longrightarrow> entry_heap s' e' = entry_heap s e') \<and>
        entry_features (entry_heap s' e) = [] \<and> critical (entry_heap s' e) = crit"
  then obtain e where e: "r = Some e" "e = heap_top s" "heap_top s' = Suc (heap_top s)"
        "plugins s' = plugins s @ [e]"
        "features s' = features s" "provided_heap s' = provided_heap s"
        "stats_failed s' = stats_failed s" "stats_depends s' = stats_depends s"
        "stats_critical s' = stats_critical s"
        "\<And>e'. e' \<noteq> e \<Longrightarrow> entry_heap s' e' = entry_heap s e'"
        "entry_features (entry_heap s' e) = []"
    by blast
  have "loader_inv env s'"
    by (rule loader_inv_new_entry[OF assms(1) e(4) _ _ e(5,6,7,8,9) e(10) e(11)])
       (use e(2,3) in simp_all)
  with e(1,4) show ?thesis by simp
qed

lemma load_tokens_inv:
  assumes ok: "matcher_ok env"
  shows "loader_inv env s \<Longrightarrow> load_tokens env toks s = (cf, s') \<Longrightarrow>
     loader_inv env s' \<and> stats_failed s' = stats_failed s \<and>
     stats_depends s' = stats_depends s \<and> stats_critical s' = stats_critical s \<and>
     loaded_plugins_str s' = loaded_plugins_str s"
proof (induction toks arbitrary: s)
  case Nil
  then show ?case by simp
next
  case (Cons tok toks)
  define crit where "crit = (tok \<noteq> [] \<and> last tok = CHR ''!'')"
  define token where "token = (if crit then butlast tok else tok)"
  define fl where "fl = plugin_file env s token"
  have unfold: "load_tokens env (tok # toks) s =
      (if plugin_loaded s token then load_tokens env toks s
       else (case load_plugin env token fl crit s of
               (Some e, s1) \<Rightarrow> load_tokens env toks (register_features env e s1)
             | (None, s1) \<Rightarrow> if crit then (True, s1) else load_tokens env toks s1))"
    by (simp only: load_tokens.simps Let_def fl_def token_def crit_def)
  note run = Cons.prems(2)[unfolded unfold]
  show ?case
  proof (cases "plugin_loaded s token")
    case True
    with run have "load_tokens env toks s = (cf, s')"
      by simp
    from Cons.IH[OF Cons.prems(1) this] show ?thesis .
  next
    case False
    obtain r s1 where lp: "load_plugin env token fl crit s = (r, s1)"
      by (cases "load_plugin env token fl crit s")
    note inv1 = load_plugin_inv[OF Cons.prems(1) lp]
    have st1: "stats_failed s1 = stats_failed s" "stats_depends s1 = stats_depends s"
      "stats_critical s1 = stats_critical s" "loaded_plugins_str s1 = loaded_plugins_str s"
      using load_plugin_cases[OF lp] by auto
    show ?thesis
    proof (cases r)
      case None
      show ?thesis
      proof (cases crit)
        case True
        with None False lp run have "s' = s1"
          by simp
        with inv1 st1 show ?thesis by simp
      next
        case F: False
        with None False lp run have "load_tokens env toks s1 = (cf, s')"
          by simp
        from Cons.IH[OF inv1[THEN conjunct1] this] st1 show ?thesis by simp
      qed
    next
      case (Some e)
      with False lp run have run': "load_tokens env toks (register_features env e s1) = (cf, s')"
        by simp
      from inv1 Some have "e \<in> set (plugins s1)" by simp
      from register_features_inv[OF ok inv1[THEN conjunct1] this]
      have "loader_inv env (register_features env e s1)" .
      from Cons.IH[OF this run'] register_features_fields[of env e s1] st1
      show ?thesis by simp
    qed
  qed
qed

lemma loader_inv_resolver:
  "loader_inv env s =
     (resolver_inv env s \<and> (\<forall>p\<in>provided_set s. \<not> loading (provided_heap s p)))"
  by (simp add: loader_inv_def)

lemma resolver_invD:
  assumes "resolver_inv env s"
  shows "registry_inv env s"
    and "registered_set s \<subseteq> provided_set s"
    and "\<And>e. e \<in> set (plugins s) \<Longrightarrow> e < heap_top s"
    and "\<And>p. p \<in> provided_set s \<Longrightarrow> p < heap_top s"
    and "\<And>e p. e \<in> set (plugins s) \<Longrightarrow> p \<in> set (entry_features (entry_heap s e)) \<Longrightarrow>
           entry (provided_heap s p) = e"
    and "dependencies_satisfied env s"
  using assms unfolding resolver_inv_def by blast+

lemma resolver_invI:
  assumes "registry_inv env s"
    and "registered_set s \<subseteq> provided_set s"
    and "\<And>e. e \<in> set (plugins s) \<Longrightarrow> e < heap_top s"
    and "\<And>p. p \<in> provided_set s \<Longrightarrow> p < heap_top s"
    and "\<And>e p. e \<in> set (plugins s) \<Longrightarrow> p \<in> set (entry_features (entry_heap s e)) \<Longrightarrow>
           entry (provided_heap s p) = e"
    and "dependencies_satisfied env s"
  shows "resolver_inv env s"
  unfolding resolver_inv_def
  apply (intro conjI ballI impI)
  using assms apply blast+
  done

lemma frame_flags_frame: "frame s s' \<Longrightarrow> flags_frame s s'"
  unfolding frame_def flags_frame_def by simp

lemma flags_frame_sets:
  assumes "flags_frame s s'"
  shows "provided_set s' = provided_set s" "registered_set s' = registered_set s"
    "descriptor s' q = descriptor s q" "registry_inv env s' = registry_inv env s"
  using assms
  unfolding flags_frame_def provided_set_def registered_set_def descriptor_def registry_inv_def
    providers_equal_def
  by simp_all

text \<open>
  The loading functions keep the invariant, given that the dependencies of newly loaded
  features are satisfied.
\<close>

lemma resolver_inv_step:
  assumes inv: "resolver_inv env s" and fr: "flags_frame s s'"
    and deps: "\<And>p d. p \<in> provided_set s \<Longrightarrow> loaded (provided_heap s' p) \<Longrightarrow>
           \<not> loaded (provided_heap s p) \<Longrightarrow>
           d \<in> set (dependency_suffix (feature (provided_heap s p))) \<Longrightarrow>
           kind d = FEATURE_DEPENDS \<Longrightarrow>
           \<exists>q\<in>provided_set s. loaded (provided_heap s' q) \<and>
                plugin_feature_matches env d (descriptor s q)"
  shows "resolver_inv env s'"
proof -
  note D = resolver_invD[OF inv]
  note S = flags_frame_sets[OF fr]
  from fr have F: "plugins s' = plugins s" "features s' = features s"
    "entry_heap s' = entry_heap s" "heap_top s' = heap_top s"
    and H: "\<And>q. entry (provided_heap s' q) = entry (provided_heap s q)"
      "\<And>q. feature (provided_heap s' q) = feature (provided_heap s q)"
      "\<And>q. loaded (provided_heap s q) \<Longrightarrow> loaded (provided_heap s' q)"
    unfolding flags_frame_def by simp_all
  show ?thesis
  proof (rule resolver_invI)
    show "registry_inv env s'" using D(1) S(4) by simp
    show "registered_set s' \<subseteq> provided_set s'" using D(2) S(1,2) by simp
    show "e < heap_top s'" if "e \<in> set (plugins s')" for e
      using that D(3)[of e] F by simp
    show "p < heap_top s'" if "p \<in> provided_set s'" for p
      using that D(4)[of p] F S by simp
    show "entry (provided_heap s' p) = e"
      if "e \<in> set (plugins s')" "p \<in> set (entry_features (entry_heap s' e))" for e p
      using that D(5)[of e p] F H by simp
    show "dependencies_satisfied env s'"
      unfolding dependencies_satisfied_def
    proof (intro ballI impI)
      fix p d
      assume p: "p \<in> provided_set s'" and l: "loaded (provided_heap s' p)"
        and d: "d \<in> set (dependency_suffix (feature (provided_heap s' p)))"
        and k: "kind d = FEATURE_DEPENDS"
      from p S have p': "p \<in> provided_set s" by simp
      from d H have d': "d \<in> set (dependency_suffix (feature (provided_heap s p)))" by simp
      have "\<exists>q\<in>provided_set s. loaded (provided_heap s' q) \<and>
                plugin_feature_matches env d (descriptor s q)"
      proof (cases "loaded (provided_heap s p)")
        case True
        with D(6) p' d' k obtain q where "q \<in> provided_set s" "loaded (provided_heap s q)"
          "plugin_feature_matches env d (descriptor s q)"
          unfolding dependencies_satisfied_def by blast
        with H(3) show ?thesis by blast
      next
        case False
        from deps[OF p' l False d' k] show ?thesis .
      qed
      then show "\<exists>q\<in>provided_set s'. loaded (provided_heap s' q) \<and>
            plugin_feature_matches env d (descriptor s' q)"
        using S by simp
    qed
  qed
qed

lemma find_compatible_feature_iff:
  "find_compatible_feature env s d \<longleftrightarrow>
     (\<exists>r\<in>set (features s). plugin_feature_matches env d (target (reg_feature r)) \<and>
        (\<exists>q\<in>set (reg_plugins r). loaded (provided_heap s q)))"
  unfolding find_compatible_feature_def ht_get_match_def find_None_iff
    loaded_feature_matches_def list_ex_iff is_feature_loaded_def
  by auto

lemma find_compatible_feature_mono:
  assumes "flags_frame s s'" "find_compatible_feature env s d"
  shows "find_compatible_feature env s' d"
  using assms unfolding find_compatible_feature_iff flags_frame_def by auto

lemma find_compatible_feature_witness:
  assumes ok: "matcher_ok env" and inv: "registry_inv env s"
    and sub: "registered_set s \<subseteq> provided_set s"
    and fc: "find_compatible_feature env s d"
  shows "\<exists>q\<in>provided_set s. loaded (provided_heap s q) \<and>
            plugin_feature_matches env d (descriptor s q)"
proof -
  from fc obtain r q where r: "r \<in> set (features s)"
    "plugin_feature_matches env d (target (reg_feature r))"
    "q \<in> set (reg_plugins r)" "loaded (provided_heap s q)"
    unfolding find_compatible_feature_iff by blast
  from inv r(1,3) have "plugin_feature_equals env (descriptor s q) (target (reg_feature r))"
    unfolding registry_inv_def providers_equal_def by blast
  with ok have "plugin_feature_equals env (target (reg_feature r)) (descriptor s q)"
    unfolding matcher_ok_def by blast
  with ok r(2) have "plugin_feature_matches env d (descriptor s q)"
    unfolding matcher_ok_def by blast
  moreover from r(1,3) sub have "q \<in> provided_set s" unfolding registered_set_def by blast
  ultimately show ?thesis using r(4) by blast
qed

lemma load_dependencies_true:
  "load_dependencies env n deps s = Some (True, s1) \<Longrightarrow>
   \<forall>d\<in>set (takeWhile (\<lambda>d. kind d = FEATURE_DEPENDS \<or> kind d = FEATURE_SDEPEND) deps).
      kind d = FEATURE_DEPENDS \<longrightarrow> find_compatible_feature env s1 d"
proof (induction deps arbitrary: n s)
  case Nil
  then show ?case by simp
next
  case (Cons d deps)
  from Cons.prems obtain m where n: "n = Suc m" by (cases n) auto
  show ?case
  proof (cases "kind d \<noteq> FEATURE_DEPENDS \<and> kind d \<noteq> FEATURE_SDEPEND")
    case True
    then show ?thesis by simp
  next
    case False
    with Cons.prems n obtain sa where m: "load_matching env m d s = Some sa"
      by (auto split: option.splits)
    show ?thesis
    proof (cases "find_compatible_feature env sa d")
      case True
      with Cons.prems n False m have rec: "load_dependencies env m deps sa = Some (True, s1)"
        by simp
      from load_dependencies_frame[OF rec] True
      have "find_compatible_feature env s1 d"
        using find_compatible_feature_mono frame_flags_frame by blast
      with Cons.IH[OF rec] False show ?thesis by simp
    next
      case nf: False
      with Cons.prems n False m have k: "kind d = FEATURE_SDEPEND"
        and rec: "load_dependencies env m deps sa = Some (True, s1)"
        by (auto split: if_splits)
      with Cons.IH[OF rec] show ?thesis by simp
    qed
  qed
qed

lemma resolver_inv_set_loading:
  assumes "resolver_inv env s"
  shows "resolver_inv env (set_loading p b s)"
proof (rule resolver_inv_step[OF assms])
  show "flags_frame s (set_loading p b s)"
    by (simp add: flags_frame_def set_loading_def)
qed (simp_all add: set_loading_def split: if_splits)

lemma resolver_inv_set_failed:
  assumes inv: "resolver_inv env s"
    and s': "flags_frame s s'"
       "\<And>q. failed (provided_heap s' q) = (q = p \<or> failed (provided_heap s q))"
       "\<And>q. loaded (provided_heap s' q) = loaded (provided_heap s q)"
  shows "resolver_inv env s'"
proof (rule resolver_inv_step[OF inv s'(1)])
  fix q d
  assume "loaded (provided_heap s' q)" "\<not> loaded (provided_heap s q)"
  with s'(3) show "\<exists>w\<in>provided_set s. loaded (provided_heap s' w) \<and>
                plugin_feature_matches env d (descriptor s w)"
    by simp
qed

lemma resolver_inv_set_loaded:
  assumes ok: "matcher_ok env" and inv: "resolver_inv env s"
    and s': "flags_frame s s'"
       "\<And>q. failed (provided_heap s' q) = failed (provided_heap s q)"
       "\<And>q. loaded (provided_heap s' q) = (q = p \<or> loaded (provided_heap s q))"
    and deps: "\<forall>d\<in>set (dependency_suffix (feature (provided_heap s p))).
       kind d = FEATURE_DEPENDS \<longrightarrow> find_compatible_feature env s d"
  shows "resolver_inv env s'"
proof (rule resolver_inv_step[OF inv s'(1)])
  fix q d
  assume a: "loaded (provided_heap s' q)" "\<not> loaded (provided_heap s q)"
    "d \<in> set (dependency_suffix (feature (provided_heap s q)))" "kind d = FEATURE_DEPENDS"
  from a(1,2) s'(3) have "q = p" by simp
  with a(3,4) deps have "find_compatible_feature env s d" by blast
  from find_compatible_feature_witness[OF ok resolver_invD(1,2)[OF inv] this]
  obtain w where "w \<in> provided_set s" "loaded (provided_heap s w)"
    "plugin_feature_matches env d (descriptor s w)" by blast
  with s'(3) show "\<exists>w\<in>provided_set s. loaded (provided_heap s' w) \<and>
                plugin_feature_matches env d (descriptor s w)"
    by blast
qed

lemma load_feature_resolver_inv:
  assumes ok: "matcher_ok env"
    and D: "\<And>ds s b r. resolver_inv env s \<Longrightarrow> load_dependencies env n ds s = Some (b, r) \<Longrightarrow>
              resolver_inv env r"
    and inv: "resolver_inv env s" and run: "load_feature env (Suc n) p s = Some r"
  shows "resolver_inv env r"
proof -
  from run obtain b s1 where
    d: "load_dependencies env n (rest (feature (provided_heap s p))) s = Some (b, s1)"
    by (auto split: option.splits)
  from D[OF inv d] have inv1: "resolver_inv env s1" .
  from load_dependencies_frame[OF d] have feat: "feature (provided_heap s1 p) = feature (provided_heap s p)"
    unfolding frame_def by simp
  let ?c = "critical (entry_heap s1 (entry (provided_heap s1 p)))"
  show ?thesis
  proof (cases "b \<and> load_callback env s1 p")
    case True
    with run d have r: "r = (set_loaded p s1)\<lparr>loaded_list := p # loaded_list s1\<rparr>"
      by (simp add: Let_def load_callback_def)
    from True d have deps: "\<forall>d\<in>set (dependency_suffix (feature (provided_heap s1 p))).
       kind d = FEATURE_DEPENDS \<longrightarrow> find_compatible_feature env s1 d"
      using load_dependencies_true[of env n _ s s1] feat by (simp add: dependency_suffix_def)
    show ?thesis
      by (rule resolver_inv_set_loaded[OF ok inv1 _ _ _ deps])
         (simp_all add: r set_loaded_def flags_frame_def)
  next
    case False
    with run d have
      "flags_frame s1 r"
      "\<And>q. failed (provided_heap r q) = (q = p \<or> failed (provided_heap s1 q))"
      "\<And>q. loaded (provided_heap r q) = loaded (provided_heap s1 q)"
      by (auto simp: Let_def load_callback_def set_failed_def flags_frame_def split: if_splits)
    then show ?thesis
      by (rule resolver_inv_set_failed[OF inv1, where p = p])
  qed
qed

lemma resolver_inv_all:
  assumes ok: "matcher_ok env"
  shows
  "(\<forall>p s r. resolver_inv env s \<longrightarrow> load_provided env n p s = Some r \<longrightarrow> resolver_inv env r) \<and>
   (\<forall>p s r. resolver_inv env s \<longrightarrow> load_feature env n p s = Some r \<longrightarrow> resolver_inv env r) \<and>
   (\<forall>ds s b r. resolver_inv env s \<longrightarrow> load_dependencies env n ds s = Some (b, r) \<longrightarrow>
       resolver_inv env r) \<and>
   (\<forall>d s r. resolver_inv env s \<longrightarrow> load_matching env n d s = Some r \<longrightarrow> resolver_inv env r) \<and>
   (\<forall>ps s r. resolver_inv env s \<longrightarrow> load_registered env n ps s = Some r \<longrightarrow>
       resolver_inv env r)"
proof (induction n)
  case 0
  show ?case by simp
next
  case (Suc n)
  have P: "\<And>p s r. resolver_inv env s \<Longrightarrow> load_provided env n p s = Some r \<Longrightarrow> resolver_inv env r"
    and F: "\<And>p s r. resolver_inv env s \<Longrightarrow> load_feature env n p s = Some r \<Longrightarrow> resolver_inv env r"
    and D: "\<And>ds s b r. resolver_inv env s \<Longrightarrow> load_dependencies env n ds s = Some (b, r) \<Longrightarrow>
              resolver_inv env r"
    and M: "\<And>d s r. resolver_inv env s \<Longrightarrow> load_matching env n d s = Some r \<Longrightarrow> resolver_inv env r"
    and R: "\<And>ps s r. resolver_inv env s \<Longrightarrow> load_registered env n ps s = Some r \<Longrightarrow>
              resolver_inv env r"
    using Suc by blast+
  have 1: "resolver_inv env r"
    if "resolver_inv env s" "load_provided env (Suc n) p s = Some r" for p s r
  proof (cases "loaded (provided_heap s p) \<or> failed (provided_heap s p) \<or>
                loading (provided_heap s p)")
    case True
    with that show ?thesis by (auto split: if_splits)
  next
    case False
    with that(2) obtain s1 where f: "load_feature env n p (set_loading p True s) = Some s1"
      and r: "r = set_loading p False s1"
      by (auto split: option.splits)
    from F[OF resolver_inv_set_loading[OF that(1)] f] show ?thesis
      unfolding r by (rule resolver_inv_set_loading)
  qed
  have 2: "resolver_inv env r"
    if "resolver_inv env s" "load_feature env (Suc n) p s = Some r" for p s r
    using load_feature_resolver_inv[OF ok D that] .
  have 3: "resolver_inv env r"
    if "resolver_inv env s" "load_dependencies env (Suc n) ds s = Some (b, r)" for ds s b r
  proof (cases ds)
    case Nil
    with that show ?thesis by simp
  next
    case (Cons d ds')
    show ?thesis
    proof (cases "kind d \<noteq> FEATURE_DEPENDS \<and> kind d \<noteq> FEATURE_SDEPEND")
      case True
      with that Cons show ?thesis by simp
    next
      case False
      with that(2) Cons obtain sa where m: "load_matching env n d s = Some sa"
        by (auto split: option.splits)
      from M[OF that(1) m] have ia: "resolver_inv env sa" .
      from that(2) Cons False m have "r = sa \<or> load_dependencies env n ds' sa = Some (b, r)"
        by (auto split: if_splits)
      with ia D[OF ia] show ?thesis by blast
    qed
  qed
  have 4: "resolver_inv env r"
    if "resolver_inv env s" "load_matching env (Suc n) d s = Some r" for d s r
  proof (cases "find_loadable env s d")
    case None
    with that show ?thesis by simp
  next
    case (Some reg)
    with that(2) obtain s1 where a: "load_registered env n (reg_plugins reg) s = Some s1"
      and b: "load_matching env n d s1 = Some r"
      by (auto split: option.splits)
    from M[OF R[OF that(1) a] b] show ?thesis .
  qed
  have 5: "resolver_inv env r"
    if "resolver_inv env s" "load_registered env (Suc n) ps s = Some r" for ps s r
  proof (cases ps)
    case Nil
    with that show ?thesis by simp
  next
    case (Cons p ps')
    with that(2) obtain s1 where a: "load_provided env n p s = Some s1"
      and b: "load_registered env n ps' s1 = Some r"
      by (auto split: option.splits)
    from R[OF P[OF that(1) a] b] show ?thesis .
  qed
  show ?case using 1 2 3 4 5 by blast
qed

lemma load_provided_resolver_inv:
  "matcher_ok env \<Longrightarrow> resolver_inv env s \<Longrightarrow> load_provided env n p s = Some r \<Longrightarrow>
   resolver_inv env r"
  using resolver_inv_all[of env n] by blast

lemma load_features_inner_resolver_inv:
  "matcher_ok env \<Longrightarrow> resolver_inv env s \<Longrightarrow> load_features_inner env n ps s = Some r \<Longrightarrow>
   resolver_inv env r"
  by (induction ps arbitrary: s)
     (auto split: option.splits dest: load_provided_resolver_inv)

lemma load_features_outer_resolver_inv:
  "matcher_ok env \<Longrightarrow> resolver_inv env s \<Longrightarrow> load_features_outer env n es s = Some r \<Longrightarrow>
   resolver_inv env r"
  by (induction es arbitrary: s)
     (auto split: option.splits dest: load_features_inner_resolver_inv)

lemma load_features_inv:
  assumes "matcher_ok env" "loader_inv env s" "load_features env n s = Some r"
  shows "loader_inv env r"
proof -
  from assms(2) have a: "resolver_inv env s"
    and b: "\<forall>p\<in>provided_set s. \<not> loading (provided_heap s p)"
    unfolding loader_inv_resolver by simp_all
  from load_features_outer_resolver_inv[OF assms(1) a assms(3)[unfolded load_features_def]]
  have "resolver_inv env r" .
  moreover from load_features_frame[OF assms(3)] b
  have "\<forall>p\<in>provided_set r. \<not> loading (provided_heap r p)"
    unfolding frame_def provided_set_def by simp
  ultimately show ?thesis unfolding loader_inv_resolver by simp
qed

lemma loader_inv_create: "loader_inv env plugin_loader_create"
  by (rule loader_inv_empty) (simp_all add: plugin_loader_create_def)

lemma loader_inv_cong:
  assumes "plugins s' = plugins s" "features s' = features s" "entry_heap s' = entry_heap s"
    "provided_heap s' = provided_heap s" "heap_top s' = heap_top s"
    "stats_failed s' = stats_failed s" "stats_depends s' = stats_depends s"
    "stats_critical s' = stats_critical s"
  shows "loader_inv env s' = loader_inv env s"
  using assms
  unfolding loader_inv_def resolver_inv_def registry_inv_def providers_equal_def
    descriptor_def registered_set_def provided_set_def dependencies_satisfied_def
  by simp

lemma add_path_inv: "loader_inv env s \<Longrightarrow> loader_inv env (add_path path s)"
  using loader_inv_cong[of "add_path path s" s env] by (simp add: add_path_def)

lemma add_static_features_inv:
  assumes ok: "matcher_ok env" and inv: "loader_inv env s"
  shows "loader_inv env (add_static_features env name feats crit s)"
proof -
  define e where "e = Suc (heap_top s)"
  define s3 where "s3 = s\<lparr>heap_top := Suc (Suc (heap_top s)),
      entry_heap := (entry_heap s)
         (e := \<lparr>plugin = \<lparr>get_name = name, get_features = Some (heap_top s, feats)\<rparr>,
                 critical = crit, handle = None, entry_features = []\<rparr>),
      plugins := plugins s @ [e]\<rparr>"
  have eq: "add_static_features env name feats crit s = register_features env e s3"
    by (simp add: add_static_features_def static_features_create_def alloc_def Let_def
          s3_def e_def)
  have "loader_inv env s3"
    by (rule loader_inv_new_entry[OF inv, where e = e]) (simp_all add: s3_def e_def)
  moreover have "e \<in> set (plugins s3)" by (simp add: s3_def)
  ultimately show ?thesis unfolding eq by (rule register_features_inv[OF ok])
qed

lemma load_plugins_inv:
  assumes ok: "matcher_ok env" and inv: "loader_inv env s"
    and run: "load_plugins env n l s = Some (r, s')"
  shows "loader_inv env s'"
proof -
  obtain cf s1 where lt: "load_tokens env (enumerator_create_token l) s = (cf, s1)"
    by (cases "load_tokens env (enumerator_create_token l) s")
  from load_tokens_inv[OF ok inv lt] have inv1: "loader_inv env s1" by simp
  show ?thesis
  proof (cases cf)
    case True
    with run lt have "s' = s1" by (simp add: load_plugins_def)
    with inv1 show ?thesis by simp
  next
    case False
    with run lt obtain s2 where lf: "load_features env n s1 = Some s2"
      by (auto simp: load_plugins_def split: option.splits)
    from load_features_inv[OF ok inv1 lf] have "loader_inv env s2" .
    from purge_plugins_inv[OF ok this] have inv3: "loader_inv env (purge_plugins env s2)" .
    from run lt False lf have "s' = purge_plugins env s2 \<or>
       (\<exists>names. s' = (purge_plugins env s2)\<lparr>loaded_plugins_str := Some names\<rparr>)"
      by (auto simp: load_plugins_def Let_def split: option.splits if_splits)
    then show ?thesis
    proof
      assume "s' = purge_plugins env s2"
      with inv3 show ?thesis by simp
    next
      assume "\<exists>names. s' = (purge_plugins env s2)\<lparr>loaded_plugins_str := Some names\<rparr>"
      then obtain names where s': "s' = (purge_plugins env s2)\<lparr>loaded_plugins_str := Some names\<rparr>"
        by blast
      show ?thesis using inv3 loader_inv_cong[of s' "purge_plugins env s2" env]
        by (simp add: s')
    qed
  qed
qed

lemma reachable_inv:
  assumes "matcher_ok env" and "reachable env s"
  shows "loader_inv env s"
  using assms(2)
proof (induction rule: reachable.induct)
  case reachable_create
  show ?case by (rule loader_inv_create)
next
  case (reachable_add_static_features s name feats crit)
  then show ?case by (simp add: add_static_features_inv[OF assms(1)])
next
  case (reachable_add_path s path)
  then show ?case by (simp add: add_path_inv)
next
  case (reachable_load s n list r s')
  then show ?case using load_plugins_inv[OF assms(1)] by blast
next
  case (reachable_unload s)
  then show ?case by (simp add: unload_inv[OF assms(1)])
qed

subsection \<open>Termination of the resolver\<close>


lemma finite_registered_set [simp]: "finite (registered_set s)"
  by (simp add: registered_set_def)

lemma frame_loadable:
  assumes "frame s s'" "is_feature_loadable s' q"
  shows "is_feature_loadable s q"
  using assms unfolding frame_def is_feature_loadable_def by auto



















subsection \<open>The accounting of the resolver\<close>

lemma finite_known [simp]: "finite (known s)"
  by (simp add: known_def provided_set_def registered_set_def)

lemma pending_card: "pending s = card {p \<in> known s. is_feature_loadable s p}"
proof -
  let ?l = "filter (is_feature_loadable s)
       (remdups (concat (map (\<lambda>e. entry_features (entry_heap s e)) (plugins s)) @
                 concat (map reg_plugins (features s))))"
  have "distinct ?l" by simp
  from distinct_card[OF this] have "pending s = card (set ?l)"
    by (simp add: pending_def)
  also have "set ?l = {p \<in> known s. is_feature_loadable s p}"
    by (auto simp: known_def provided_set_def registered_set_def)
  finally show ?thesis .
qed

lemma frame_known: "frame s s' \<Longrightarrow> known s' = known s"
  unfolding frame_def known_def provided_set_def registered_set_def by simp

lemma pending_mono:
  assumes "known s' = known s" and "\<And>q. is_feature_loadable s' q \<Longrightarrow> is_feature_loadable s q"
  shows "pending s' \<le> pending s"
  unfolding pending_card assms(1)
  by (rule card_mono) (use assms(2) in auto)

lemma frame_pending: "frame s s' \<Longrightarrow> pending s' \<le> pending s"
  by (rule pending_mono) (auto simp: frame_known dest: frame_loadable)



lemma counted_weaken: "counted s s' a \<Longrightarrow> a \<le> b \<Longrightarrow> counted s s' b"
  unfolding counted_def by (elim exE conjE, intro exI conjI) (assumption | simp)+




lemma known_set_loading [simp]: "known (set_loading p b s) = known s"
  by (simp add: known_def provided_set_def registered_set_def set_loading_def)








subsection \<open>The list of loaded plugins and the result of loading\<close>

lemma append_names_fit:
  assumes "\<forall>name\<in>set names. length name \<le> 127"
  shows "length buf = len \<Longrightarrow> len < buf_len \<Longrightarrow> 128 \<le> buf_len \<Longrightarrow>
     \<exists>bl. append_names names buf_len len buf False =
        Some (bl, len + length (concat (map (\<lambda>name. name @ '' '') names)),
              buf @ concat (map (\<lambda>name. name @ '' '') names), False) \<and>
        len + length (concat (map (\<lambda>name. name @ '' '') names)) < bl"
  using assms
proof (induction names arbitrary: buf len buf_len)
  case Nil
  then show ?case by simp
next
  case (Cons name names)
  define bl1 where "bl1 = (if len + (length name + 1) \<ge> buf_len then 2 * buf_len else buf_len)"
  from Cons.prems have l: "length name \<le> 127" by simp
  with Cons.prems(2,3) have fit: "len + (length name + 1) < bl1" "128 \<le> bl1"
    by (auto simp: bl1_def)
  then have tk: "take (bl1 - len - 1) (name @ '' '') = name @ '' ''" by simp
  have step0: "append_names (name # names) buf_len len buf False =
     (if bl1 < len then None
      else append_names names bl1 (len + (length name + 1))
             (buf @ take (bl1 - len - 1) (name @ '' ''))
             (False \<or> bl1 - len \<le> length name + 1))"
    unfolding bl1_def by (simp only: append_names.simps Let_def if_False)
  have "\<not> bl1 < len" "\<not> bl1 - len \<le> length name + 1" using fit by simp_all
  with step0 tk have step: "append_names (name # names) buf_len len buf False =
     append_names names bl1 (len + (length name + 1)) (buf @ name @ '' '') False"
    by (simp only: if_False simp_thms)
  have "length (buf @ name @ '' '') = len + (length name + 1)"
    using Cons.prems(1) by simp
  from Cons.IH[OF this fit] Cons.prems(4)
  obtain bl where "append_names names bl1 (len + (length name + 1)) (buf @ name @ '' '') False =
        Some (bl, len + (length name + 1) + length (concat (map (\<lambda>name. name @ '' '') names)),
              (buf @ name @ '' '') @ concat (map (\<lambda>name. name @ '' '') names), False) \<and>
        len + (length name + 1) + length (concat (map (\<lambda>name. name @ '' '') names)) < bl"
    by auto
  then show ?case unfolding step by (intro exI[of _ bl]) (simp add: add.assoc)
qed

lemma spaced_last:
  "names \<noteq> [] \<Longrightarrow>
   concat (map (\<lambda>name. name @ '' '') names) \<noteq> [] \<and>
   last (concat (map (\<lambda>name. name @ '' '') names)) = CHR '' ''"
  by (induction names) auto

lemma loaded_plugins_list_fit:
  assumes "\<forall>e\<in>set (plugins s). length (get_name (plugin (entry_heap s e))) \<le> 127"
  shows "loaded_plugins_list s =
     Some (join_names (map (\<lambda>e. get_name (plugin (entry_heap s e))) (plugins s)))"
proof -
  let ?names = "map (\<lambda>e. get_name (plugin (entry_heap s e))) (plugins s)"
  let ?all = "concat (map (\<lambda>name. name @ '' '') ?names)"
  from assms have "\<forall>name\<in>set ?names. length name \<le> 127" by auto
  from append_names_fit[OF this, of "[]" 0 128]
  obtain bl where a: "append_names ?names 128 0 [] False = Some (bl, length ?all, ?all, False)"
    and b: "length ?all < bl"
    by auto
  show ?thesis
  proof (cases "plugins s")
    case Nil
    with a show ?thesis by (simp add: loaded_plugins_list_def join_names_def)
  next
    case (Cons e es)
    then have ne: "?names \<noteq> []" by simp
    from spaced_last[OF ne] have "?all \<noteq> []" "last ?all = CHR '' ''" by simp_all
    then show ?thesis
      using a b by (simp add: loaded_plugins_list_def join_names_def)
  qed
qed

lemma purge_entries_fields:
  "purge_entries env es s = (kept, s1) \<Longrightarrow>
   set kept \<subseteq> set es \<and>
   stats_failed s1 = stats_failed s \<and> stats_depends s1 = stats_depends s \<and>
   stats_critical s1 = stats_critical s \<and>
   (\<forall>e. plugin (entry_heap s1 e) = plugin (entry_heap s e))"
proof (induction es arbitrary: s kept)
  case Nil
  then show ?case by simp
next
  case (Cons e es)
  show ?case
  proof (cases "survives s e")
    case True
    with Cons.prems obtain k where k: "purge_entries env es s = (k, s1)" "kept = e # k"
      by (auto simp: survives_def split: prod.splits if_splits)
    from Cons.IH[OF k(1)] k(2) show ?thesis by auto
  next
    case False
    with Cons.prems have k: "purge_entries env es (unregister_features env e s) = (kept, s1)"
      by (auto simp: survives_def split: if_splits)
    from Cons.IH[OF k] show ?thesis by auto
  qed
qed

lemma purge_plugins_fields:
  "set (plugins (purge_plugins env s)) \<subseteq> set (plugins s) \<and>
   stats_failed (purge_plugins env s) = stats_failed s \<and>
   stats_depends (purge_plugins env s) = stats_depends s \<and>
   stats_critical (purge_plugins env s) = stats_critical s \<and>
   (\<forall>e. plugin (entry_heap (purge_plugins env s) e) = plugin (entry_heap s e))"
proof -
  obtain kept s1 where p: "purge_entries env (plugins s) s = (kept, s1)"
    by (cases "purge_entries env (plugins s) s")
  from purge_entries_fields[OF p] show ?thesis
    by (simp add: purge_plugins_def p)
qed

lemma load_plugin_constructed:
  assumes "load_plugin env name fl crit s = (Some e, s')"
  shows "\<exists>h sym. dlsym env h sym = Some (Some (plugin (entry_heap s' e)))"
proof (cases "create_plugin env None name False crit s")
  case (Inr x)
  obtain e1 s1 where x: "x = (e1, s1)" by (cases x)
  from assms Inr x have e: "e = e1" "s' = s1\<lparr>plugins := plugins s1 @ [e1]\<rparr>"
    by (auto simp: load_plugin_def)
  from create_plugin_Inr[OF Inr[unfolded x]]
  have "dlsym env None (translate (name @ ''_plugin_create'')) =
          Some (Some (plugin (entry_heap s1 e1)))"
    by (elim conjE)
  with e have "dlsym env None (translate (name @ ''_plugin_create'')) =
          Some (Some (plugin (entry_heap s' e)))" by simp
  then show ?thesis by blast
next
  case (Inl st)
  with assms obtain f h s1 where t: "fl = Some f" "dlopen env f = Some h"
      "create_plugin env (Some h) name True crit s = Inr (e, s1)"
      "s' = s1\<lparr>entry_heap := (entry_heap s1)(e := (entry_heap s1 e)\<lparr>handle := Some h\<rparr>),
                 plugins := plugins s1 @ [e]\<rparr>"
    by (auto simp: load_plugin_def split: status_t.splits if_splits option.splits sum.splits)
  from create_plugin_Inr[OF t(3)] t(4) show ?thesis by auto
qed

lemma load_tokens_fields:
  "load_tokens env toks s = (cf, s') \<Longrightarrow>
     stats_failed s' = stats_failed s \<and> stats_depends s' = stats_depends s \<and>
     stats_critical s' = stats_critical s \<and> (names_fit env s \<longrightarrow> names_fit env s')"
proof (induction toks arbitrary: s)
  case Nil
  then show ?case by simp
next
  case (Cons tok toks)
  define crit where "crit = (tok \<noteq> [] \<and> last tok = CHR ''!'')"
  define token where "token = (if crit then butlast tok else tok)"
  define fl where "fl = plugin_file env s token"
  have unfold: "load_tokens env (tok # toks) s =
      (if plugin_loaded s token then load_tokens env toks s
       else (case load_plugin env token fl crit s of
               (Some e, s1) \<Rightarrow> load_tokens env toks (register_features env e s1)
             | (None, s1) \<Rightarrow> if crit then (True, s1) else load_tokens env toks s1))"
    by (simp only: load_tokens.simps Let_def fl_def token_def crit_def)
  note run = Cons.prems[unfolded unfold]
  show ?case
  proof (cases "plugin_loaded s token")
    case True
    with run have "load_tokens env toks s = (cf, s')" by simp
    from Cons.IH[OF this] show ?thesis .
  next
    case False
    obtain r s1 where lp: "load_plugin env token fl crit s = (r, s1)"
      by (cases "load_plugin env token fl crit s")
    note lc = load_plugin_cases[OF lp]
    have st1: "stats_failed s1 = stats_failed s" "stats_depends s1 = stats_depends s"
      "stats_critical s1 = stats_critical s"
      using lc by auto
    have nf1: "names_fit env s1" if nf: "names_fit env s"
    proof (cases r)
      case None
      with lc nf show ?thesis by simp
    next
      case (Some e)
      with lc have pl: "plugins s1 = plugins s @ [e]"
        and eh: "\<And>e'. e' \<noteq> e \<Longrightarrow> entry_heap s1 e' = entry_heap s e'"
        by auto
      from load_plugin_constructed[OF lp[unfolded Some]] nf
      have "length (get_name (plugin (entry_heap s1 e))) \<le> 127"
        unfolding names_fit_def by blast
      with nf pl eh show ?thesis
        unfolding names_fit_def by (auto; metis)
    qed
    show ?thesis
    proof (cases r)
      case None
      show ?thesis
      proof (cases crit)
        case True
        with None False lp run have "s' = s1" by simp
        with st1 nf1 show ?thesis by simp
      next
        case F: False
        with None False lp run have "load_tokens env toks s1 = (cf, s')" by simp
        from Cons.IH[OF this] st1 nf1 show ?thesis by simp
      qed
    next
      case (Some e)
      with False lp run have run': "load_tokens env toks (register_features env e s1) = (cf, s')"
        by simp
      have "names_fit env (register_features env e s1)" if "names_fit env s1"
        using that register_features_fields[of env e s1] unfolding names_fit_def by simp
      with Cons.IH[OF run'] register_features_fields[of env e s1] st1 nf1
      show ?thesis by simp
    qed
  qed
qed











subsection \<open>Dependencies of loaded features\<close>

lemma matcher_ok_two_plugins: "matcher_ok (two_plugins fm fn cb)"
  by (simp add: matcher_ok_def two_plugins_def)

lemma chain_fuel_9:
  "\<exists>s'. load_plugins (chain (1::nat) 2 (\<lambda>_ _ _. True)) 9 ''M N'' plugin_loader_create
          = Some (True, s') \<and>
     1 \<in> provided_set s' \<and> loaded (provided_heap s' 1) \<and>
     dependency_suffix (feature (provided_heap s' 1)) = [\<lparr>kind = FEATURE_DEPENDS, arg = 2\<rparr>]"
  by (simp add: chain_def two_plugins_def eval_defs eval_nat_numeral provided_set_def
        dependency_suffix_def)

text \<open>
  C1. After \<open>load\<close> has returned in a state the interface can reach, every hard
  dependency in the dependency suffix of a loaded provided feature is matched by the
  descriptor of a loaded provided feature.
\<close>

theorem loaded_dependencies_satisfied:
  assumes "matcher_ok env" and "reachable env s"
    and "load_plugins env n list s = Some (r, s')"
  shows "\<forall>p\<in>provided_set s'. loaded (provided_heap s' p) \<longrightarrow>
        (\<forall>d\<in>set (dependency_suffix (feature (provided_heap s' p))).
           kind d = FEATURE_DEPENDS \<longrightarrow>
           (\<exists>q\<in>provided_set s'. loaded (provided_heap s' q) \<and>
                plugin_feature_matches env d (descriptor s' q)))"
proof -
  from assms(2,3) have "reachable env s'" by (rule reachable_load)
  from reachable_inv[OF assms(1) this] have "dependencies_satisfied env s'"
    by (rule loader_invD)
  then show ?thesis unfolding dependencies_satisfied_def .
qed

theorem loaded_dependencies_satisfied_witness:
  "matcher_ok (chain (1::nat) 2 (\<lambda>_ _ _. True)) \<and>
   reachable (chain (1::nat) 2 (\<lambda>_ _ _. True)) plugin_loader_create \<and>
   (\<exists>s'. load_plugins (chain (1::nat) 2 (\<lambda>_ _ _. True)) 9 ''M N'' plugin_loader_create
          = Some (True, s') \<and>
      1 \<in> provided_set s' \<and> loaded (provided_heap s' 1) \<and>
      dependency_suffix (feature (provided_heap s' 1)) = [\<lparr>kind = FEATURE_DEPENDS, arg = 2\<rparr>] \<and>
      (\<forall>p\<in>provided_set s'. loaded (provided_heap s' p) \<longrightarrow>
        (\<forall>d\<in>set (dependency_suffix (feature (provided_heap s' p))).
           kind d = FEATURE_DEPENDS \<longrightarrow>
           (\<exists>q\<in>provided_set s'. loaded (provided_heap s' q) \<and>
                plugin_feature_matches (chain (1::nat) 2 (\<lambda>_ _ _. True)) d (descriptor s' q)))))"
proof -
  let ?E = "chain (1::nat) 2 (\<lambda>_ _ _. True)"
  have ok: "matcher_ok ?E" unfolding chain_def by (rule matcher_ok_two_plugins)
  have re: "reachable ?E plugin_loader_create" by (rule reachable_create)
  from chain_fuel_9 obtain s' where
    run: "load_plugins ?E 9 ''M N'' plugin_loader_create = Some (True, s')"
    and rest: "1 \<in> provided_set s'" "loaded (provided_heap s' 1)"
      "dependency_suffix (feature (provided_heap s' 1)) = [\<lparr>kind = FEATURE_DEPENDS, arg = 2\<rparr>]"
    by blast
  from loaded_dependencies_satisfied[OF ok re run] ok re run rest
  show ?thesis by blast
qed

subsection \<open>Unloading\<close>

lemma soft_cycle_state_9:
  "\<exists>s'. load_plugins (soft_cycle (1::nat) 2 (\<lambda>_ _ _. True)) 9 ''M N'' plugin_loader_create
          = Some (True, s') \<and>
     plugins s' = [0, 2] \<and> loaded_list s' = [1, 3] \<and> length (features s') = 2 \<and>
     loaded_plugins s' = ''M N''"
  by (simp add: soft_cycle_def two_plugins_def eval_defs eval_nat_numeral loaded_plugins_def)

text \<open>
  C7. After \<open>unload\<close> in a state the interface can reach, the list of module entries,
  the activation stack and the registry are empty, the three counters are zero, and
  \<open>loaded_plugins\<close> returns the empty string.
\<close>

theorem unload_clears_loader:
  assumes "matcher_ok env" and "reachable env s"
  shows "plugins (unload env s) = [] \<and> loaded_list (unload env s) = [] \<and>
     features (unload env s) = [] \<and> stats_failed (unload env s) = 0 \<and>
     stats_depends (unload env s) = 0 \<and> stats_critical (unload env s) = 0 \<and>
     loaded_plugins (unload env s) = []"
proof -
  note inv = reachable_inv[OF assms]
  from unload_spec[OF assms(1) loader_invD(1,2)[OF inv]]
  show ?thesis by (simp add: loaded_plugins_def)
qed

theorem unload_clears_loader_witness:
  "matcher_ok (soft_cycle (1::nat) 2 (\<lambda>_ _ _. True)) \<and>
   (\<exists>s. reachable (soft_cycle (1::nat) 2 (\<lambda>_ _ _. True)) s \<and>
      plugins s = [0, 2] \<and> loaded_list s = [1, 3] \<and> length (features s) = 2 \<and>
      loaded_plugins s = ''M N'' \<and>
      plugins (unload (soft_cycle (1::nat) 2 (\<lambda>_ _ _. True)) s) = [] \<and>
      loaded_list (unload (soft_cycle (1::nat) 2 (\<lambda>_ _ _. True)) s) = [] \<and>
      features (unload (soft_cycle (1::nat) 2 (\<lambda>_ _ _. True)) s) = [] \<and>
      stats_failed (unload (soft_cycle (1::nat) 2 (\<lambda>_ _ _. True)) s) = 0 \<and>
      stats_depends (unload (soft_cycle (1::nat) 2 (\<lambda>_ _ _. True)) s) = 0 \<and>
      stats_critical (unload (soft_cycle (1::nat) 2 (\<lambda>_ _ _. True)) s) = 0 \<and>
      loaded_plugins (unload (soft_cycle (1::nat) 2 (\<lambda>_ _ _. True)) s) = [])"
proof -
  let ?E = "soft_cycle (1::nat) 2 (\<lambda>_ _ _. True)"
  have ok: "matcher_ok ?E" unfolding soft_cycle_def by (rule matcher_ok_two_plugins)
  from soft_cycle_state_9 obtain s where
    run: "load_plugins ?E 9 ''M N'' plugin_loader_create = Some (True, s)"
    and rest: "plugins s = [0, 2]" "loaded_list s = [1, 3]" "length (features s) = 2"
      "loaded_plugins s = ''M N''"
    by blast
  from reachable_load[OF reachable_create run] have re: "reachable ?E s" .
  from unload_clears_loader[OF ok re] ok re rest show ?thesis by blast
qed

subsection \<open>Two providers of one registered feature\<close>

lemma shared_state_reachable: "reachable featureless shared_state"
  unfolding shared_state_def
  by (intro reachable_add_static_features reachable_create)

lemma shared_state_eval:
  "ht_get featureless (features shared_state) (feature (provided_heap shared_state 2)) = Some 0"
  "reg_plugins (features shared_state ! 0) = [2, 5]"
  "ptr_eq (reg_feature (features shared_state ! 0)) (feature (provided_heap shared_state 2))"
  "length (features shared_state) = 1"
  by (simp_all add: shared_state_def featureless_def two_plugins_def add_static_features_def
        static_features_create_def eval_defs)

theorem unregister_feature_registry_witness:
  "matcher_ok featureless \<and> keys_distinct featureless (features shared_state) \<and>
   providers_equal featureless shared_state \<and>
   ht_get featureless (features shared_state) (feature (provided_heap shared_state 2)) = Some 0 \<and>
   removeAll 2 (reg_plugins (features shared_state ! 0)) = [5] \<and>
   features (unregister_feature featureless 2 shared_state) =
     (features shared_state)[0 := \<lparr>reg_feature = feature (provided_heap shared_state 5),
                                   reg_plugins = [5]\<rparr>] \<and>
   keys_distinct featureless (features (unregister_feature featureless 2 shared_state))"
proof -
  have ok: "matcher_ok featureless" unfolding featureless_def by (rule matcher_ok_two_plugins)
  from reachable_inv[OF ok shared_state_reachable]
  have "registry_inv featureless shared_state" by (rule loader_invD)
  then have kd: "keys_distinct featureless (features shared_state)"
    and pe: "providers_equal featureless shared_state"
    unfolding registry_inv_def by simp_all
  note inst = unregister_feature_registry[OF ok kd pe shared_state_eval(1)]
  have rem: "removeAll 2 (reg_plugins (features shared_state ! 0)) = [5]"
    by (simp add: shared_state_eval(2))
  from inst rem shared_state_eval(3)
  have "features (unregister_feature featureless 2 shared_state) =
     (features shared_state)[0 := \<lparr>reg_feature = feature (provided_heap shared_state 5),
                                   reg_plugins = [5]\<rparr>]"
    by simp
  with ok kd pe shared_state_eval(1) rem inst show ?thesis by blast
qed

subsection \<open>The counters across calls\<close>

lemma failing_load_step:
  assumes "plugins s = []" "features s = []" "paths s = None"
  shows "\<exists>s'. load_plugins failing_callback 5 ''M!'' s =
       Some (\<not> 0 <s stats_critical s + 1, s') \<and>
     plugins s' = [] \<and> features s' = [] \<and> paths s' = None \<and>
     stats_critical s' = stats_critical s + 1 \<and> stats_failed s' = stats_failed s + 1 \<and>
     stats_depends s' = stats_depends s \<and>
     \<not> fst (load_tokens failing_callback (enumerator_create_token ''M!'') s)"
  using assms
  by (cases "0 <s stats_critical s + 1")
     (simp_all add: failing_callback_def two_plugins_def eval_defs eval_nat_numeral
        append_names.simps)

lemma failing_loads_spec:
  "plugins (failing_loads k) = [] \<and> features (failing_loads k) = [] \<and>
   paths (failing_loads k) = None \<and> stats_critical (failing_loads k) = of_nat k \<and>
   stats_failed (failing_loads k) = of_nat k \<and> stats_depends (failing_loads k) = 0 \<and>
   reachable failing_callback (failing_loads k)"
proof (induction k)
  case 0
  show ?case by (simp add: plugin_loader_create_def reachable_create[unfolded plugin_loader_create_def])
next
  case (Suc k)
  from Suc have e: "plugins (failing_loads k) = []" "features (failing_loads k) = []"
    "paths (failing_loads k) = None" by simp_all
  from failing_load_step[OF e] obtain s' where
    run: "load_plugins failing_callback 5 ''M!'' (failing_loads k) =
       Some (\<not> 0 <s stats_critical (failing_loads k) + 1, s')"
    and s': "plugins s' = []" "features s' = []" "paths s' = None"
      "stats_critical s' = stats_critical (failing_loads k) + 1"
      "stats_failed s' = stats_failed (failing_loads k) + 1"
      "stats_depends s' = stats_depends (failing_loads k)"
    by blast
  from run have eq: "failing_loads (Suc k) = s'" by simp
  from Suc have "reachable failing_callback (failing_loads k)" by simp
  from reachable_load[OF this run] have "reachable failing_callback s'" .
  with s' Suc show ?case unfolding eq by simp
qed

lemma failing_loads_run:
  "load_plugins failing_callback 5 ''M!'' (failing_loads k) =
     Some (\<not> 0 <s (of_nat k + 1 :: 32 word), failing_loads (Suc k))"
proof -
  from failing_loads_spec[of k] have e: "plugins (failing_loads k) = []"
    "features (failing_loads k) = []" "paths (failing_loads k) = None"
    and c: "stats_critical (failing_loads k) = of_nat k" by simp_all
  from failing_load_step[OF e] obtain s' where
    run: "load_plugins failing_callback 5 ''M!'' (failing_loads k) =
       Some (\<not> 0 <s stats_critical (failing_loads k) + 1, s')"
    by blast
  then have "failing_loads (Suc k) = s'" by simp
  with run c show ?thesis by simp
qed

lemma failing_loads_max:
  "load_plugins failing_callback 5 ''M!'' (failing_loads 2147483646) =
     Some (False, failing_loads 2147483647)"
  "load_plugins failing_callback 5 ''M!'' (failing_loads 2147483647) =
     Some (True, failing_loads 2147483648)"
  "stats_critical (failing_loads 2147483647) = 2147483647"
  "stats_critical (failing_loads 2147483648) = - 2147483648"
  "reachable failing_callback (failing_loads 2147483646)"
  "reachable failing_callback (failing_loads 2147483647)"
  "\<not> fst (load_tokens failing_callback (enumerator_create_token ''M!'')
          (failing_loads 2147483647))"
proof -
  have a: "Suc 2147483646 = 2147483647" "Suc 2147483647 = 2147483648" by simp_all
  from failing_loads_run[of 2147483646]
  show "load_plugins failing_callback 5 ''M!'' (failing_loads 2147483646) =
     Some (False, failing_loads 2147483647)"
    unfolding a by (simp add: word_sless_alt)
  from failing_loads_run[of 2147483647]
  show "load_plugins failing_callback 5 ''M!'' (failing_loads 2147483647) =
     Some (True, failing_loads 2147483648)"
    unfolding a by (simp add: word_sless_alt)
  from failing_loads_spec[of 2147483647]
  show "stats_critical (failing_loads 2147483647) = 2147483647" by simp
  from failing_loads_spec[of 2147483648]
  show "stats_critical (failing_loads 2147483648) = - 2147483648" by simp
  from failing_loads_spec[of 2147483646]
  show "reachable failing_callback (failing_loads 2147483646)" by simp
  from failing_loads_spec[of 2147483647]
  show "reachable failing_callback (failing_loads 2147483647)" by simp
  from failing_loads_spec[of 2147483647] have e: "plugins (failing_loads 2147483647) = []"
    "features (failing_loads 2147483647) = []" "paths (failing_loads 2147483647) = None"
    by simp_all
  from failing_load_step[OF e]
  show "\<not> fst (load_tokens failing_callback (enumerator_create_token ''M!'')
          (failing_loads 2147483647))" by blast
qed

text \<open>
  C10 as stated fails where the counter wraps around. The loader is the one reached by
  2147483646 calls of \<open>load\<close> with the list \<open>M!\<close>, each of which fails the critical
  feature of M. The next call returns false and leaves \<open>stats.critical\<close> at
  2147483647 (\<open>INT_MAX\<close>), which is greater than zero; the call after that, with no
  \<open>unload\<close> in between, increments the counter to \<open>INT_MIN\<close> and returns true.
\<close>

theorem second_load_true_after_wrap:
  "reachable failing_callback (failing_loads 2147483646) \<and>
   load_plugins failing_callback 5 ''M!'' (failing_loads 2147483646) =
     Some (False, failing_loads 2147483647) \<and>
   stats_critical (failing_loads 2147483647) = 2147483647 \<and>
   0 <s stats_critical (failing_loads 2147483647) \<and>
   load_plugins failing_callback 5 ''M!'' (failing_loads 2147483647) =
     Some (True, failing_loads 2147483648) \<and>
   stats_critical (failing_loads 2147483648) = - 2147483648"
  using failing_loads_max by (simp add: word_sless_alt)




subsection \<open>Entries without loaded features\<close>






















subsection \<open>The value returned by load\<close>






text \<open>
  C2 as stated fails where the counter has wrapped around. The loader is the one
  reached by 2147483647 calls of \<open>load\<close> with the list \<open>M!\<close>, where \<open>stats.critical\<close> is
  \<open>INT_MAX\<close>. The next call constructs the critical plugin M, so no critical plugin
  fails at construction, and its feature fails again; the increment wraps
  \<open>stats.critical\<close> around to \<open>INT_MIN\<close>, which is not greater than zero, and \<open>load\<close>
  returns true although \<open>stats.critical\<close> is not zero.
\<close>

theorem load_true_with_nonzero_counter:
  "reachable failing_callback (failing_loads 2147483647) \<and>
   \<not> fst (load_tokens failing_callback (enumerator_create_token ''M!'')
          (failing_loads 2147483647)) \<and>
   load_plugins failing_callback 5 ''M!'' (failing_loads 2147483647) =
     Some (True, failing_loads 2147483648) \<and>
   stats_critical (failing_loads 2147483648) = - 2147483648 \<and>
   stats_critical (failing_loads 2147483648) \<noteq> 0"
  using failing_loads_max by simp




subsection \<open>Plugins without feature interface\<close>

lemma legacy_failing_run:
  "map_option fst (load_plugins legacy_failing 5 ''a M!'' plugin_loader_create) = Some False"
  "plugins (snd (the (load_plugins legacy_failing 5 ''a M!'' plugin_loader_create))) = [0]"
  "get_name (plugin (entry_heap
      (snd (the (load_plugins legacy_failing 5 ''a M!'' plugin_loader_create))) 0)) = ''a''"
  "get_features (plugin (entry_heap
      (snd (the (load_plugins legacy_failing 5 ''a M!'' plugin_loader_create))) 0)) = None"
  "loaded_plugins (snd (the (load_plugins legacy_failing 5 ''a M!'' plugin_loader_create))) = []"
  "plugins (snd (load_tokens legacy_failing (enumerator_create_token ''a M!'')
       plugin_loader_create)) = [0, 1]"
  by (simp_all add: legacy_failing_def legacy_def loaded_plugins_def eval_defs eval_nat_numeral)

lemma legacy_loading_run:
  "\<exists>s1 s'. load_tokens legacy_loading (enumerator_create_token ''a M'') plugin_loader_create =
       (False, s1) \<and>
     load_plugins legacy_loading 5 ''a M'' plugin_loader_create = Some (True, s') \<and>
     plugins s1 = [0, 1] \<and> get_features (plugin (entry_heap s1 0)) = None \<and>
     get_name (plugin (entry_heap s1 0)) = ''a'' \<and>
     plugins s' = [0, 1] \<and> loaded_plugins s' = ''a M''"
  by (simp add: legacy_loading_def legacy_def loaded_plugins_def eval_defs eval_nat_numeral)

lemma purge_entries_keeps:
  "purge_entries env es s = (kept, s1) \<Longrightarrow> e \<in> set es \<Longrightarrow>
   get_features (plugin (entry_heap s e)) = None \<Longrightarrow> e \<in> set kept"
proof (induction es arbitrary: s kept)
  case Nil
  then show ?case by simp
next
  case (Cons e' es)
  show ?case
  proof (cases "survives s e'")
    case True
    with Cons.prems(1) obtain k where k: "purge_entries env es s = (k, s1)" "kept = e' # k"
      by (auto simp: survives_def split: prod.splits if_splits)
    show ?thesis
    proof (cases "e = e'")
      case True
      with k show ?thesis by simp
    next
      case False
      with Cons.prems(2) have "e \<in> set es" by simp
      from Cons.IH[OF k(1) this Cons.prems(3)] k(2) show ?thesis by simp
    qed
  next
    case False
    with Cons.prems(1) have k: "purge_entries env es (unregister_features env e' s) = (kept, s1)"
      by (auto simp: survives_def split: if_splits)
    from False Cons.prems(3) have "e \<noteq> e'" by (auto simp: survives_def)
    with Cons.prems(2) have in_es: "e \<in> set es" by simp
    have "get_features (plugin (entry_heap (unregister_features env e' s) e)) = None"
      using Cons.prems(3) \<open>e \<noteq> e'\<close> by simp
    from Cons.IH[OF k in_es this] show ?thesis .
  qed
qed

lemma purge_plugins_keeps:
  assumes "e \<in> set (plugins s)" and "get_features (plugin (entry_heap s e)) = None"
  shows "e \<in> set (plugins (purge_plugins env s))"
proof -
  obtain kept s1 where p: "purge_entries env (plugins s) s = (kept, s1)"
    by (cases "purge_entries env (plugins s) s")
  from purge_entries_keeps[OF p assms] show ?thesis
    by (simp add: purge_plugins_def p)
qed

lemma join_names_contains:
  assumes "name \<in> set names"
  shows "\<exists>pre post. join_names names = pre @ name @ post"
proof -
  from split_list[OF assms] obtain xs ys where n: "names = xs @ name # ys" by blast
  let ?c = "\<lambda>l. concat (map (\<lambda>name. name @ '' '') l)"
  have "join_names names = butlast (?c xs @ name @ '' '' @ ?c ys)"
    by (simp add: join_names_def n)
  also have "\<dots> = ?c xs @ name @ butlast ('' '' @ ?c ys)"
    by (simp add: butlast_append)
  finally show ?thesis by blast
qed

text \<open>
  C9 as stated fails: a plugin named a without feature interface and a critical plugin M
  whose only feature fails to load. After loading \<open>a M!\<close> into a fresh loader, \<open>load\<close>
  has returned false, the entry of a has survived \<open>purge_plugins\<close> and is the only
  entry of the plugin list, but the string of loaded plugins, which is written only
  when \<open>load\<close> returns true, is empty.
\<close>

theorem legacy_entry_not_listed:
  "map_option fst (load_plugins legacy_failing 5 ''a M!'' plugin_loader_create) = Some False \<and>
   plugins (snd (the (load_plugins legacy_failing 5 ''a M!'' plugin_loader_create))) = [0] \<and>
   get_name (plugin (entry_heap
      (snd (the (load_plugins legacy_failing 5 ''a M!'' plugin_loader_create))) 0)) = ''a'' \<and>
   get_features (plugin (entry_heap
      (snd (the (load_plugins legacy_failing 5 ''a M!'' plugin_loader_create))) 0)) = None \<and>
   loaded_plugins (snd (the (load_plugins legacy_failing 5 ''a M!'' plugin_loader_create))) = []"
  using legacy_failing_run by simp

text \<open>
  C9 amended. An entry that is in the plugin list when the tokens of the list have been
  loaded (added as a static feature set or loaded dynamically, before or by this
  load) and whose plugin does not implement the feature interface is still in the
  list, with the same plugin object, when \<open>load\<close> returns. When \<open>load\<close> returns true
  and no plugin name is longer than 127 characters, the string of loaded plugins is
  the names of the entries of the plugin list separated by spaces, and so contains the
  name of that entry, even though it contributed no loaded feature.
\<close>

theorem legacy_entry_listed:
  assumes lt: "load_tokens env (enumerator_create_token list) s = (cf, s1)"
    and run: "load_plugins env n list s = Some (r, s')"
    and e: "e \<in> set (plugins s1)"
    and gf: "get_features (plugin (entry_heap s1 e)) = None"
  shows "e \<in> set (plugins s') \<and> plugin (entry_heap s' e) = plugin (entry_heap s1 e) \<and>
     (r \<and> names_fit env s \<longrightarrow>
        loaded_plugins s' =
          join_names (map (\<lambda>e. get_name (plugin (entry_heap s' e))) (plugins s')) \<and>
        (\<exists>pre post. loaded_plugins s' = pre @ get_name (plugin (entry_heap s' e)) @ post))"
proof (cases cf)
  case True
  with lt run have "s' = s1" "\<not> r" by (simp_all add: load_plugins_def)
  with e show ?thesis by simp
next
  case False
  with lt run obtain s2 where lf: "load_features env n s1 = Some s2"
    by (auto simp: load_plugins_def split: option.splits)
  let ?s3 = "purge_plugins env s2"
  from load_features_frame[OF lf] have fr: "plugins s2 = plugins s1" "entry_heap s2 = entry_heap s1"
    unfolding frame_def by simp_all
  from e gf fr have in3: "e \<in> set (plugins ?s3)"
    by (intro purge_plugins_keeps) simp_all
  from purge_plugins_fields[of env s2] fr
  have pl3: "\<And>e'. plugin (entry_heap ?s3 e') = plugin (entry_heap s1 e')" by simp
  from lt run False lf have cases: "(s' = ?s3 \<and> \<not> r) \<or>
     (r \<and> (\<exists>names. loaded_plugins_list ?s3 = Some names \<and>
                     s' = ?s3\<lparr>loaded_plugins_str := Some names\<rparr>))"
    by (auto simp: load_plugins_def Let_def split: option.splits if_splits)
  then show ?thesis
  proof
    assume "s' = ?s3 \<and> \<not> r"
    with in3 pl3 show ?thesis by simp
  next
    assume "r \<and> (\<exists>names. loaded_plugins_list ?s3 = Some names \<and>
                     s' = ?s3\<lparr>loaded_plugins_str := Some names\<rparr>)"
    then obtain names where r: r and ll: "loaded_plugins_list ?s3 = Some names"
      and s': "s' = ?s3\<lparr>loaded_plugins_str := Some names\<rparr>"
      by blast
    from s' have f: "plugins s' = plugins ?s3" "entry_heap s' = entry_heap ?s3"
      "loaded_plugins s' = names"
      by (simp_all add: loaded_plugins_def)
    have str: "loaded_plugins s' =
          join_names (map (\<lambda>e. get_name (plugin (entry_heap s' e))) (plugins s')) \<and>
        (\<exists>pre post. loaded_plugins s' = pre @ get_name (plugin (entry_heap s' e)) @ post)"
      if nf: "names_fit env s"
    proof -
      from load_tokens_fields[OF lt] nf have "names_fit env s1" by simp
      with fr have "names_fit env s2" unfolding names_fit_def by simp
      with purge_plugins_fields[of env s2]
      have "\<forall>e\<in>set (plugins ?s3). length (get_name (plugin (entry_heap ?s3 e))) \<le> 127"
        unfolding names_fit_def by auto
      from loaded_plugins_list_fit[OF this] ll
      have eq: "names = join_names (map (\<lambda>e. get_name (plugin (entry_heap ?s3 e))) (plugins ?s3))"
        by simp
      from in3 have "get_name (plugin (entry_heap ?s3 e)) \<in>
          set (map (\<lambda>e. get_name (plugin (entry_heap ?s3 e))) (plugins ?s3))"
        by simp
      from join_names_contains[OF this] eq f show ?thesis by simp
    qed
    have "e \<in> set (plugins s')" using in3 f by simp
    moreover have "plugin (entry_heap s' e) = plugin (entry_heap s1 e)" using pl3 f by simp
    ultimately show ?thesis using str by blast
  qed
qed

lemma names_fit_legacy: "names_fit (legacy cb) plugin_loader_create"
  by (auto simp: names_fit_def legacy_def plugin_loader_create_def split: if_splits)

theorem legacy_entry_listed_witness:
  "names_fit legacy_loading plugin_loader_create \<and>
   (\<exists>s1 s'. load_tokens legacy_loading (enumerator_create_token ''a M'') plugin_loader_create =
       (False, s1) \<and>
     load_plugins legacy_loading 5 ''a M'' plugin_loader_create = Some (True, s') \<and>
     0 \<in> set (plugins s1) \<and> get_features (plugin (entry_heap s1 0)) = None \<and>
     get_name (plugin (entry_heap s1 0)) = ''a'' \<and>
     0 \<in> set (plugins s') \<and> plugin (entry_heap s' 0) = plugin (entry_heap s1 0) \<and>
     loaded_plugins s' = ''a M'' \<and>
     loaded_plugins s' =
       join_names (map (\<lambda>e. get_name (plugin (entry_heap s' e))) (plugins s')) \<and>
     (\<exists>pre post. loaded_plugins s' = pre @ get_name (plugin (entry_heap s' 0)) @ post))"
proof -
  have nf: "names_fit legacy_loading plugin_loader_create"
    unfolding legacy_loading_def by (rule names_fit_legacy)
  from legacy_loading_run obtain s1 s' where
    lt: "load_tokens legacy_loading (enumerator_create_token ''a M'') plugin_loader_create =
       (False, s1)"
    and run: "load_plugins legacy_loading 5 ''a M'' plugin_loader_create = Some (True, s')"
    and pl: "plugins s1 = [0, 1]" and gf: "get_features (plugin (entry_heap s1 0)) = None"
    and gn: "get_name (plugin (entry_heap s1 0)) = ''a''"
    and str: "loaded_plugins s' = ''a M''"
    by blast
  have e: "0 \<in> set (plugins s1)" by (simp add: pl)
  note inst = legacy_entry_listed[OF lt run e gf]
  from inst have a: "0 \<in> set (plugins s')"
    and b: "plugin (entry_heap s' 0) = plugin (entry_heap s1 0)"
    by simp_all
  from inst nf have c: "loaded_plugins s' =
       join_names (map (\<lambda>e. get_name (plugin (entry_heap s' e))) (plugins s'))"
    and d: "\<exists>pre post. loaded_plugins s' = pre @ get_name (plugin (entry_heap s' 0)) @ post"
    by blast+
  have "load_tokens legacy_loading (enumerator_create_token ''a M'') plugin_loader_create =
       (False, s1) \<and>
     load_plugins legacy_loading 5 ''a M'' plugin_loader_create = Some (True, s') \<and>
     0 \<in> set (plugins s1) \<and> get_features (plugin (entry_heap s1 0)) = None \<and>
     get_name (plugin (entry_heap s1 0)) = ''a'' \<and>
     0 \<in> set (plugins s') \<and> plugin (entry_heap s' 0) = plugin (entry_heap s1 0) \<and>
     loaded_plugins s' = ''a M'' \<and>
     loaded_plugins s' =
       join_names (map (\<lambda>e. get_name (plugin (entry_heap s' e))) (plugins s')) \<and>
     (\<exists>pre post. loaded_plugins s' = pre @ get_name (plugin (entry_heap s' 0)) @ post)"
    by (intro conjI lt run e gf gn a b str c d)
  then have "\<exists>s1 s'. load_tokens legacy_loading (enumerator_create_token ''a M'')
       plugin_loader_create = (False, s1) \<and>
     load_plugins legacy_loading 5 ''a M'' plugin_loader_create = Some (True, s') \<and>
     0 \<in> set (plugins s1) \<and> get_features (plugin (entry_heap s1 0)) = None \<and>
     get_name (plugin (entry_heap s1 0)) = ''a'' \<and>
     0 \<in> set (plugins s') \<and> plugin (entry_heap s' 0) = plugin (entry_heap s1 0) \<and>
     loaded_plugins s' = ''a M'' \<and>
     loaded_plugins s' =
       join_names (map (\<lambda>e. get_name (plugin (entry_heap s' e))) (plugins s')) \<and>
     (\<exists>pre post. loaded_plugins s' = pre @ get_name (plugin (entry_heap s' 0)) @ post)"
    by (intro exI)
  with nf show ?thesis by (intro conjI)
qed

text \<open>
  The bound on the length of the names matters: \<open>loaded_plugins_list\<close> doubles its
  buffer at most once per name, so a name of 255 characters is cut by \<open>snprintf\<close>, the
  terminating NUL stays in front of everything written later, and the names of the
  following entries are missing from the string.
\<close>

lemma long_name_truncates_list:
  "map_option fst (load_plugins long_names 1 ''a x'' plugin_loader_create) = Some True"
  "plugins (snd (the (load_plugins long_names 1 ''a x'' plugin_loader_create))) = [0, 1]"
  "get_name (plugin (entry_heap
      (snd (the (load_plugins long_names 1 ''a x'' plugin_loader_create))) 1)) = ''x''"
  "loaded_plugins (snd (the (load_plugins long_names 1 ''a x'' plugin_loader_create))) =
     replicate 255 CHR ''a''"
  by (simp_all add: long_names_def loaded_plugins_def eval_defs eval_nat_numeral)

end
